theory Spec2Isabelle
  imports Complex_Main "HOL-Library.Word" "HOL-Library.Signed_Division"
begin

unbundle bit_operations_syntax

section \<open>Outcomes of a Go call\<close>

text \<open>
  The error values of the three packages (\<open>uint128\<close>, \<open>uint256\<close>, \<open>decimal\<close>) are
  distinct Go variables, so they are distinct constructors here.  A run-time panic is not an
  error value: it is the third outcome of a call.
\<close>

datatype error =
    U128_ErrOverflow | U128_ErrUnderflow | U128_ErrDivideByZero
  | U256_ErrOverflow | U256_ErrUnderflow | U256_ErrDivideByZero
  | errOverflow | ErrPrecOutOfRange | ErrDivideByZero | ErrSqrtNegative
  | ErrZeroPowNegative | ErrExponentTooLarge | ErrIntPartOverflow
  | ErrOther string

datatype panic = DivideError | OverflowError | IndexOutOfRange

datatype 'a result = Ok 'a | Error error | Panic panic

section \<open>The primitives of package \<open>math/bits\<close>\<close>

type_synonym uint64 = "64 word"

text \<open>\<open>bits.Add64(x, y, carry)\<close>: the sum and the carry out (0 or 1).\<close>

definition bits_Add64 :: "uint64 \<Rightarrow> uint64 \<Rightarrow> uint64 \<Rightarrow> uint64 \<times> uint64" where
  "bits_Add64 x y carry =
     (x + y + carry, if 2 ^ 64 \<le> unat x + unat y + unat carry then 1 else 0)"

text \<open>\<open>bits.Sub64(x, y, borrow)\<close>: the difference and the borrow out (0 or 1).\<close>

definition bits_Sub64 :: "uint64 \<Rightarrow> uint64 \<Rightarrow> uint64 \<Rightarrow> uint64 \<times> uint64" where
  "bits_Sub64 x y borrow =
     (x - y - borrow, if unat x < unat y + unat borrow then 1 else 0)"

text \<open>\<open>bits.Mul64(x, y)\<close>: the 128-bit product as (hi, lo).\<close>

definition bits_Mul64 :: "uint64 \<Rightarrow> uint64 \<Rightarrow> uint64 \<times> uint64" where
  "bits_Mul64 x y = (of_nat (unat x * unat y div 2 ^ 64), x * y)"

text \<open>
  \<open>bits.Div64(hi, lo, y)\<close>: quotient and remainder of (hi, lo) by y.  It panics for
  \<open>y = 0\<close> (division by zero) and for \<open>y \<le> hi\<close> (quotient overflow).
\<close>

definition bits_Div64 :: "uint64 \<Rightarrow> uint64 \<Rightarrow> uint64 \<Rightarrow> (uint64 \<times> uint64) result" where
  "bits_Div64 h l y =
     (if y = 0 then Panic DivideError
      else if y \<le> h then Panic OverflowError
      else Ok (of_nat ((unat h * 2 ^ 64 + unat l) div unat y),
               of_nat ((unat h * 2 ^ 64 + unat l) mod unat y)))"

text \<open>\<open>bits.Len64(x)\<close>: the minimum number of bits required to represent x; 0 for 0.\<close>

fun bitlen :: "nat \<Rightarrow> nat" where
  "bitlen n = (if n = 0 then 0 else Suc (bitlen (n div 2)))"

declare bitlen.simps [simp del]

definition bits_Len64 :: "uint64 \<Rightarrow> nat" where
  "bits_Len64 x = bitlen (unat x)"

definition bits_LeadingZeros64 :: "uint64 \<Rightarrow> nat" where
  "bits_LeadingZeros64 x = 64 - bits_Len64 x"

section \<open>Package \<open>uint128\<close>\<close>

record Uint128 =
  lo :: uint64
  hi :: uint64

definition New :: "uint64 \<Rightarrow> uint64 \<Rightarrow> Uint128" where
  "New l h = \<lparr>lo = l, hi = h\<rparr>"

definition NewFromUint64 :: "uint64 \<Rightarrow> Uint128" where
  "NewFromUint64 v = New v 0"

definition Uint128_Zero :: Uint128 where
  "Uint128_Zero = \<lparr>lo = 0, hi = 0\<rparr>"

definition Uint128_Max :: Uint128 where
  "Uint128_Max = New (- 1) (- 1)"

definition Uint128_Low :: "Uint128 \<Rightarrow> uint64" where
  "Uint128_Low u = lo u"

definition Uint128_High :: "Uint128 \<Rightarrow> uint64" where
  "Uint128_High u = hi u"

definition Uint128_IsZero :: "Uint128 \<Rightarrow> bool" where
  "Uint128_IsZero u \<longleftrightarrow> u = \<lparr>lo = 0, hi = 0\<rparr>"

definition Uint128_Equals :: "Uint128 \<Rightarrow> Uint128 \<Rightarrow> bool" where
  "Uint128_Equals u v \<longleftrightarrow> u = v"

definition Uint128_Cmp :: "Uint128 \<Rightarrow> Uint128 \<Rightarrow> int" where
  "Uint128_Cmp u v =
     (if u = v then 0
      else if hi u < hi v \<or> (hi u = hi v \<and> lo u < lo v) then - 1
      else 1)"

definition Uint128_Cmp64 :: "Uint128 \<Rightarrow> uint64 \<Rightarrow> int" where
  "Uint128_Cmp64 u v =
     (if hi u = 0 \<and> lo u = v then 0
      else if hi u = 0 \<and> lo u < v then - 1
      else 1)"

definition Uint128_Or :: "Uint128 \<Rightarrow> Uint128 \<Rightarrow> Uint128" where
  "Uint128_Or u v = \<lparr>lo = lo u OR lo v, hi = hi u OR hi v\<rparr>"

definition Uint128_Lt :: "Uint128 \<Rightarrow> Uint128 \<Rightarrow> bool" where
  "Uint128_Lt u v \<longleftrightarrow> hi u < hi v \<or> (hi u = hi v \<and> lo u < lo v)"

definition Uint128_Lte :: "Uint128 \<Rightarrow> Uint128 \<Rightarrow> bool" where
  "Uint128_Lte u v \<longleftrightarrow> hi u < hi v \<or> (hi u = hi v \<and> lo u \<le> lo v)"

definition Uint128_Gt :: "Uint128 \<Rightarrow> Uint128 \<Rightarrow> bool" where
  "Uint128_Gt u v \<longleftrightarrow> hi u > hi v \<or> (hi u = hi v \<and> lo u > lo v)"

definition Uint128_Gte :: "Uint128 \<Rightarrow> Uint128 \<Rightarrow> bool" where
  "Uint128_Gte u v \<longleftrightarrow> hi u > hi v \<or> (hi u = hi v \<and> lo u \<ge> lo v)"

text \<open>The shift and bit counts have Go type \<open>uint\<close>; every subtraction on them is guarded.\<close>

definition Uint128_Bit :: "Uint128 \<Rightarrow> nat \<Rightarrow> uint64" where
  "Uint128_Bit u i =
     (if i \<ge> 128 then 0
      else if i \<ge> 64 then drop_bit (i - 64) (hi u) AND 1
      else drop_bit i (lo u) AND 1)"

definition Uint128_SetBit :: "Uint128 \<Rightarrow> nat \<Rightarrow> Uint128" where
  "Uint128_SetBit u i =
     (if i \<ge> 128 then u
      else if i \<ge> 64 then \<lparr>lo = lo u, hi = hi u OR push_bit (i - 64) 1\<rparr>
      else \<lparr>lo = lo u OR push_bit i 1, hi = hi u\<rparr>)"

definition Uint128_Add :: "Uint128 \<Rightarrow> Uint128 \<Rightarrow> Uint128 result" where
  "Uint128_Add u v =
     (let (l, carry) = bits_Add64 (lo u) (lo v) 0;
          (h, carry) = bits_Add64 (hi u) (hi v) carry
      in if carry \<noteq> 0 then Error U128_ErrOverflow else Ok \<lparr>lo = l, hi = h\<rparr>)"

definition Uint128_AddWrap :: "Uint128 \<Rightarrow> Uint128 \<Rightarrow> Uint128" where
  "Uint128_AddWrap u v =
     (let (l, carry) = bits_Add64 (lo u) (lo v) 0;
          (h, _) = bits_Add64 (hi u) (hi v) carry
      in \<lparr>lo = l, hi = h\<rparr>)"

definition Uint128_Add64 :: "Uint128 \<Rightarrow> uint64 \<Rightarrow> Uint128 result" where
  "Uint128_Add64 u v =
     (let (l, carry) = bits_Add64 (lo u) v 0;
          (h, carry) = bits_Add64 (hi u) 0 carry
      in if carry \<noteq> 0 then Error U128_ErrOverflow else Ok \<lparr>lo = l, hi = h\<rparr>)"

definition Uint128_AddWrap64 :: "Uint128 \<Rightarrow> uint64 \<Rightarrow> Uint128" where
  "Uint128_AddWrap64 u v =
     (let (l, carry) = bits_Add64 (lo u) v 0;
          h = hi u + carry
      in \<lparr>lo = l, hi = h\<rparr>)"

definition Uint128_AddCarry :: "Uint128 \<Rightarrow> Uint128 \<Rightarrow> uint64 \<Rightarrow> Uint128 \<times> uint64" where
  "Uint128_AddCarry u v carryIn =
     (let (l, c0) = bits_Add64 (lo u) (lo v) carryIn;
          (h, carryOut) = bits_Add64 (hi u) (hi v) c0
      in (\<lparr>lo = l, hi = h\<rparr>, carryOut))"

definition Uint128_Sub :: "Uint128 \<Rightarrow> Uint128 \<Rightarrow> Uint128 result" where
  "Uint128_Sub u v =
     (let (l, borrow) = bits_Sub64 (lo u) (lo v) 0;
          (h, borrow) = bits_Sub64 (hi u) (hi v) borrow
      in if borrow \<noteq> 0 then Error U128_ErrUnderflow else Ok \<lparr>lo = l, hi = h\<rparr>)"

definition Uint128_SubWrap :: "Uint128 \<Rightarrow> Uint128 \<Rightarrow> Uint128" where
  "Uint128_SubWrap u v =
     (let (l, borrow) = bits_Sub64 (lo u) (lo v) 0;
          (h, _) = bits_Sub64 (hi u) (hi v) borrow
      in \<lparr>lo = l, hi = h\<rparr>)"

definition Uint128_Sub64 :: "Uint128 \<Rightarrow> uint64 \<Rightarrow> Uint128 result" where
  "Uint128_Sub64 u v =
     (let (l, borrow) = bits_Sub64 (lo u) v 0;
          (h, borrow) = bits_Sub64 (hi u) 0 borrow
      in if borrow \<noteq> 0 then Error U128_ErrUnderflow else Ok \<lparr>lo = l, hi = h\<rparr>)"

definition Uint128_SubWrap64 :: "Uint128 \<Rightarrow> uint64 \<Rightarrow> Uint128" where
  "Uint128_SubWrap64 u v =
     (let (l, borrow) = bits_Sub64 (lo u) v 0;
          h = hi u - borrow
      in \<lparr>lo = l, hi = h\<rparr>)"

definition Uint128_SubBorrow :: "Uint128 \<Rightarrow> Uint128 \<Rightarrow> uint64 \<Rightarrow> Uint128 \<times> uint64" where
  "Uint128_SubBorrow u v borrowIn =
     (let (l, b0) = bits_Sub64 (lo u) (lo v) borrowIn;
          (h, borrowOut) = bits_Sub64 (hi u) (hi v) b0
      in (\<lparr>lo = l, hi = h\<rparr>, borrowOut))"

definition Uint128_Mul :: "Uint128 \<Rightarrow> Uint128 \<Rightarrow> Uint128 result" where
  "Uint128_Mul u v =
     (let (h, l) = bits_Mul64 (lo u) (lo v);
          (p0, p1) = bits_Mul64 (hi u) (lo v);
          (p2, p3) = bits_Mul64 (lo u) (hi v);
          (h, c0) = bits_Add64 h p1 0;
          (h, c1) = bits_Add64 h p3 c0
      in if (hi u \<noteq> 0 \<and> hi v \<noteq> 0) \<or> p0 \<noteq> 0 \<or> p2 \<noteq> 0 \<or> c1 \<noteq> 0
         then Error U128_ErrOverflow
         else Ok \<lparr>lo = l, hi = h\<rparr>)"

definition Uint128_MulWrap :: "Uint128 \<Rightarrow> Uint128 \<Rightarrow> Uint128" where
  "Uint128_MulWrap u v =
     (let (h, l) = bits_Mul64 (lo u) (lo v);
          h = h + (hi u * lo v + lo u * hi v)
      in \<lparr>lo = l, hi = h\<rparr>)"

definition Uint128_MulFull :: "Uint128 \<Rightarrow> Uint128 \<Rightarrow> Uint128 \<times> Uint128" where
  "Uint128_MulFull u v =
     (let (ulvl_h, ulvl_l) = bits_Mul64 (lo u) (lo v);
          (uhvl_h, uhvl_l) = bits_Mul64 (hi u) (lo v);
          (ulvh_h, ulvh_l) = bits_Mul64 (lo u) (hi v);
          (uhvh_h, uhvh_l) = bits_Mul64 (hi u) (hi v);
          (mid1, carry1) = bits_Add64 uhvl_l ulvh_l 0;
          (mid2, carry2) = bits_Add64 uhvl_h ulvh_h carry1;
          (r1, carry_to_r2_from_mid_sum_low) = bits_Add64 mid1 ulvl_h 0;
          loProduct = \<lparr>lo = ulvl_l, hi = r1\<rparr>;
          (r2_part1, carry_to_r3_from_r2_part1) = bits_Add64 mid2 uhvh_l 0;
          (r2_part2, carry_to_r3_from_r2_part2) =
             bits_Add64 r2_part1 carry_to_r2_from_mid_sum_low 0;
          (r2_final, carry_to_r3_from_r2_final) = bits_Add64 r2_part2 carry2 0;
          r3 = uhvh_h + carry_to_r3_from_r2_part1 + carry_to_r3_from_r2_part2
                 + carry_to_r3_from_r2_final;
          hiProduct = \<lparr>lo = r2_final, hi = r3\<rparr>
      in (hiProduct, loProduct))"

definition Uint128_Mul64 :: "Uint128 \<Rightarrow> uint64 \<Rightarrow> Uint128 result" where
  "Uint128_Mul64 u v =
     (let (h, l) = bits_Mul64 (lo u) v;
          (p0, p1) = bits_Mul64 (hi u) v;
          (h, c0) = bits_Add64 h p1 0
      in if p0 \<noteq> 0 \<or> c0 \<noteq> 0 then Error U128_ErrOverflow else Ok \<lparr>lo = l, hi = h\<rparr>)"

definition Uint128_MulWrap64 :: "Uint128 \<Rightarrow> uint64 \<Rightarrow> Uint128" where
  "Uint128_MulWrap64 u v =
     (let (h, l) = bits_Mul64 (lo u) v;
          h = h + hi u * v
      in \<lparr>lo = l, hi = h\<rparr>)"

definition Uint128_Lsh :: "Uint128 \<Rightarrow> nat \<Rightarrow> Uint128" where
  "Uint128_Lsh u n =
     (if n > 64 then \<lparr>lo = 0, hi = push_bit (n - 64) (lo u)\<rparr>
      else \<lparr>lo = push_bit n (lo u), hi = push_bit n (hi u) OR drop_bit (64 - n) (lo u)\<rparr>)"

definition Uint128_Rsh :: "Uint128 \<Rightarrow> nat \<Rightarrow> Uint128" where
  "Uint128_Rsh u n =
     (if n > 64 then \<lparr>lo = drop_bit (n - 64) (hi u), hi = 0\<rparr>
      else \<lparr>lo = drop_bit n (lo u) OR push_bit (64 - n) (hi u), hi = drop_bit n (hi u)\<rparr>)"

definition Uint128_BitLen :: "Uint128 \<Rightarrow> nat" where
  "Uint128_BitLen u = (if hi u \<noteq> 0 then 64 + bits_Len64 (hi u) else bits_Len64 (lo u))"

text \<open>\<open>QuoRem64\<close> has no guard of its own: a zero divisor reaches \<open>bits.Div64\<close>.\<close>

definition Uint128_QuoRem64 :: "Uint128 \<Rightarrow> uint64 \<Rightarrow> (Uint128 \<times> uint64) result" where
  "Uint128_QuoRem64 u v =
     (if hi u < v then
        (case bits_Div64 (hi u) (lo u) v of
           Ok (ql, r) \<Rightarrow> Ok (\<lparr>lo = ql, hi = 0\<rparr>, r)
         | Error e \<Rightarrow> Error e
         | Panic p \<Rightarrow> Panic p)
      else
        (case bits_Div64 0 (hi u) v of
           Ok (qh, r) \<Rightarrow>
             (case bits_Div64 r (lo u) v of
                Ok (ql, r) \<Rightarrow> Ok (\<lparr>lo = ql, hi = qh\<rparr>, r)
              | Error e \<Rightarrow> Error e
              | Panic p \<Rightarrow> Panic p)
         | Error e \<Rightarrow> Error e
         | Panic p \<Rightarrow> Panic p))"

definition Uint128_Div64 :: "Uint128 \<Rightarrow> uint64 \<Rightarrow> Uint128 result" where
  "Uint128_Div64 u v =
     (case Uint128_QuoRem64 u v of
        Ok (q, _) \<Rightarrow> Ok q
      | Error e \<Rightarrow> Error e
      | Panic p \<Rightarrow> Panic p)"

definition Uint128_Mod64 :: "Uint128 \<Rightarrow> uint64 \<Rightarrow> uint64 result" where
  "Uint128_Mod64 u v =
     (case Uint128_QuoRem64 u v of
        Ok (_, r) \<Rightarrow> Ok r
      | Error e \<Rightarrow> Error e
      | Panic p \<Rightarrow> Panic p)"

text \<open>
  The trial quotient of the branch \<open>v.hi \<noteq> 0\<close> of \<open>QuoRem\<close>, after the decrement.
  There \<open>n = LeadingZeros64(v.hi) \<le> 63\<close>, so \<open>63 - n\<close> does not wrap.
\<close>

definition trialQuotient :: "Uint128 \<Rightarrow> Uint128 \<Rightarrow> uint64 result" where
  "trialQuotient u v =
     (let n = bits_LeadingZeros64 (hi v);
          v1 = Uint128_Lsh v n;
          u1 = Uint128_Rsh u 1
      in case bits_Div64 (hi u1) (lo u1) (hi v1) of
           Ok (tq, _) \<Rightarrow>
             (let tq = drop_bit (63 - n) tq
              in Ok (if tq \<noteq> 0 then tq - 1 else tq))
         | Error e \<Rightarrow> Error e
         | Panic p \<Rightarrow> Panic p)"

text \<open>
  \<open>QuoRem\<close> returns the triple \<open>(q, r, err)\<close>; on an error path the triple holds whatever
  \<open>q\<close> and \<open>r\<close> are at that point (a failed call assigns the zero value).
\<close>

definition Uint128_QuoRem ::
  "Uint128 \<Rightarrow> Uint128 \<Rightarrow> (Uint128 \<times> Uint128 \<times> error option) result" where
  "Uint128_QuoRem u v =
     (if hi v = 0 then
        (case Uint128_QuoRem64 u (lo v) of
           Ok (q, r64) \<Rightarrow> Ok (q, NewFromUint64 r64, None)
         | Error e \<Rightarrow> Error e
         | Panic p \<Rightarrow> Panic p)
      else
        (case trialQuotient u v of
           Ok tq \<Rightarrow>
             (let q = NewFromUint64 tq
              in case Uint128_Mul64 v tq of
                   Error e \<Rightarrow> Ok (q, Uint128_Zero, Some e)
                 | Panic p \<Rightarrow> Panic p
                 | Ok vq \<Rightarrow>
                     (case Uint128_Sub u vq of
                        Error e \<Rightarrow> Ok (q, Uint128_Zero, Some e)
                      | Panic p \<Rightarrow> Panic p
                      | Ok r \<Rightarrow>
                          if Uint128_Cmp r v \<ge> 0 then
                            (case Uint128_Add64 q 1 of
                               Error e \<Rightarrow> Ok (Uint128_Zero, r, Some e)
                             | Panic p \<Rightarrow> Panic p
                             | Ok q' \<Rightarrow>
                                 (case Uint128_Sub r v of
                                    Error e \<Rightarrow> Ok (q', Uint128_Zero, Some e)
                                  | Panic p \<Rightarrow> Panic p
                                  | Ok r' \<Rightarrow> Ok (q', r', None)))
                          else Ok (q, r, None)))
         | Error e \<Rightarrow> Error e
         | Panic p \<Rightarrow> Panic p))"

definition Uint128_Div :: "Uint128 \<Rightarrow> Uint128 \<Rightarrow> (Uint128 \<times> error option) result" where
  "Uint128_Div u v =
     (case Uint128_QuoRem u v of
        Ok (q, _, err) \<Rightarrow> Ok (q, err)
      | Error e \<Rightarrow> Error e
      | Panic p \<Rightarrow> Panic p)"

definition Uint128_Mod :: "Uint128 \<Rightarrow> Uint128 \<Rightarrow> (Uint128 \<times> error option) result" where
  "Uint128_Mod u v =
     (case Uint128_QuoRem u v of
        Ok (_, r, err) \<Rightarrow> Ok (r, err)
      | Error e \<Rightarrow> Error e
      | Panic p \<Rightarrow> Panic p)"

text \<open>\<open>Big\<close>: the value as an unbounded integer, \<open>(hi << 64) xor lo\<close>.\<close>

definition Uint128_Big :: "Uint128 \<Rightarrow> int" where
  "Uint128_Big u = push_bit 64 (uint (hi u)) XOR uint (lo u)"

text \<open>The number a \<open>Uint128\<close> stands for.\<close>

definition val128 :: "Uint128 \<Rightarrow> nat" where
  "val128 u = unat (hi u) * 2 ^ 64 + unat (lo u)"

text \<open>The \<open>Uint128\<close> that stands for a number (reduced modulo \<open>2 ^ 128\<close>).\<close>

definition u128_of_nat :: "nat \<Rightarrow> Uint128" where
  "u128_of_nat n = \<lparr>lo = of_nat n, hi = of_nat (n div 2 ^ 64)\<rparr>"

text \<open>The two limbs read as one 128-bit word.\<close>

definition w128 :: "Uint128 \<Rightarrow> 128 word" where
  "w128 u = word_cat (hi u) (lo u)"

section \<open>Package \<open>uint256\<close>\<close>

text \<open>A \<open>Uint256\<close> is two \<open>Uint128\<close> limbs (the fields \<open>lo\<close> and \<open>hi\<close> of the source).\<close>

record Uint256 =
  lo256 :: Uint128
  hi256 :: Uint128

definition Uint256_Zero :: Uint256 where
  "Uint256_Zero = \<lparr>lo256 = Uint128_Zero, hi256 = Uint128_Zero\<rparr>"

definition Uint256_New :: "Uint128 \<Rightarrow> Uint128 \<Rightarrow> Uint256" where
  "Uint256_New l h = \<lparr>lo256 = l, hi256 = h\<rparr>"

definition Uint256_NewFromUint64 :: "uint64 \<Rightarrow> Uint256" where
  "Uint256_NewFromUint64 v = \<lparr>lo256 = NewFromUint64 v, hi256 = Uint128_Zero\<rparr>"

definition Uint256_NewFromUint128 :: "Uint128 \<Rightarrow> Uint256" where
  "Uint256_NewFromUint128 v = \<lparr>lo256 = v, hi256 = Uint128_Zero\<rparr>"

definition Uint256_Low :: "Uint256 \<Rightarrow> Uint128" where
  "Uint256_Low u = lo256 u"

definition Uint256_High :: "Uint256 \<Rightarrow> Uint128" where
  "Uint256_High u = hi256 u"

definition Uint256_IsZero :: "Uint256 \<Rightarrow> bool" where
  "Uint256_IsZero u \<longleftrightarrow> Uint128_IsZero (lo256 u) \<and> Uint128_IsZero (hi256 u)"

definition Uint256_Cmp128 :: "Uint256 \<Rightarrow> Uint128 \<Rightarrow> int" where
  "Uint256_Cmp128 u v =
     (if \<not> Uint128_IsZero (hi256 u) then 1 else Uint128_Cmp (lo256 u) v)"

definition Uint256_Lt :: "Uint256 \<Rightarrow> Uint256 \<Rightarrow> bool" where
  "Uint256_Lt u v \<longleftrightarrow>
     Uint128_Lt (hi256 u) (hi256 v)
     \<or> (Uint128_Equals (hi256 u) (hi256 v) \<and> Uint128_Lt (lo256 u) (lo256 v))"

definition Uint256_Gte :: "Uint256 \<Rightarrow> Uint256 \<Rightarrow> bool" where
  "Uint256_Gte u v \<longleftrightarrow>
     Uint128_Gt (hi256 u) (hi256 v)
     \<or> (Uint128_Equals (hi256 u) (hi256 v) \<and> Uint128_Gte (lo256 u) (lo256 v))"

definition Uint256_Bit :: "Uint256 \<Rightarrow> nat \<Rightarrow> uint64" where
  "Uint256_Bit u i =
     (if i \<ge> 256 then 0
      else if i \<ge> 128 then Uint128_Bit (hi256 u) (i - 128)
      else Uint128_Bit (lo256 u) i)"

definition Uint256_SetBit :: "Uint256 \<Rightarrow> nat \<Rightarrow> Uint256" where
  "Uint256_SetBit u i =
     (if i \<ge> 256 then u
      else if i \<ge> 128 then \<lparr>lo256 = lo256 u, hi256 = Uint128_SetBit (hi256 u) (i - 128)\<rparr>
      else \<lparr>lo256 = Uint128_SetBit (lo256 u) i, hi256 = hi256 u\<rparr>)"

definition Uint256_Sub :: "Uint256 \<Rightarrow> Uint256 \<Rightarrow> Uint256 result" where
  "Uint256_Sub u v =
     (let (l, borrowLo) = Uint128_SubBorrow (lo256 u) (lo256 v) 0;
          (h, borrowHi) = Uint128_SubBorrow (hi256 u) (hi256 v) borrowLo
      in if borrowHi \<noteq> 0 then Error U256_ErrUnderflow else Ok \<lparr>lo256 = l, hi256 = h\<rparr>)"

definition Uint256_Lsh :: "Uint256 \<Rightarrow> nat \<Rightarrow> Uint256" where
  "Uint256_Lsh u n =
     (if n \<ge> 256 then Uint256_Zero
      else if n \<ge> 128 then \<lparr>lo256 = Uint128_Zero, hi256 = Uint128_Lsh (lo256 u) (n - 128)\<rparr>
      else (let h = Uint128_Or (Uint128_Lsh (hi256 u) n) (Uint128_Rsh (lo256 u) (128 - n));
                l = Uint128_Lsh (lo256 u) n
            in \<lparr>lo256 = l, hi256 = h\<rparr>))"

definition Uint256_BitLen :: "Uint256 \<Rightarrow> nat" where
  "Uint256_BitLen u =
     (if \<not> Uint128_IsZero (hi256 u) then 128 + Uint128_BitLen (hi256 u)
      else Uint128_BitLen (lo256 u))"

text \<open>
  The loop of \<open>quoRemCore\<close>, \<open>for i := 255; i >= 0; i--\<close>: the first argument is the
  number of bits still to process, so the call for \<open>Suc i\<close> handles bit \<open>i\<close>.  The error of
  \<open>r.Sub(v)\<close> is discarded by the source (a failed \<open>Sub\<close> returns the zero value).
\<close>

fun quoRemLoop :: "nat \<Rightarrow> Uint256 \<Rightarrow> Uint256 \<Rightarrow> Uint256 \<times> Uint256 \<Rightarrow> Uint256 \<times> Uint256" where
  "quoRemLoop 0 u v (q, r) = (q, r)"
| "quoRemLoop (Suc i) u v (q, r) =
     (let r = Uint256_Lsh r 1;
          r = (if Uint256_Bit u i \<noteq> 0 then Uint256_SetBit r 0 else r)
      in if Uint256_Gte r v
         then quoRemLoop i u v
                (Uint256_SetBit q i,
                 (case Uint256_Sub r v of Ok d \<Rightarrow> d | Error _ \<Rightarrow> Uint256_Zero
                  | Panic _ \<Rightarrow> Uint256_Zero))
         else quoRemLoop i u v (q, r))"

definition quoRemCore :: "Uint256 \<Rightarrow> Uint256 \<Rightarrow> Uint256 \<times> Uint256" where
  "quoRemCore u v =
     (if Uint256_Lt u v then (Uint256_Zero, u)
      else quoRemLoop 256 u v (Uint256_Zero, Uint256_Zero))"

definition Uint256_QuoRem :: "Uint256 \<Rightarrow> Uint256 \<Rightarrow> (Uint256 \<times> Uint256) result" where
  "Uint256_QuoRem u v =
     (if Uint256_IsZero v then Error U256_ErrDivideByZero
      else Ok (quoRemCore u v))"

text \<open>The number a \<open>Uint256\<close> stands for, and the \<open>Uint256\<close> that stands for a number.\<close>

definition val256 :: "Uint256 \<Rightarrow> nat" where
  "val256 u = val128 (hi256 u) * 2 ^ 128 + val128 (lo256 u)"

definition u256_of_nat :: "nat \<Rightarrow> Uint256" where
  "u256_of_nat n = \<lparr>lo256 = u128_of_nat n, hi256 = u128_of_nat (n div 2 ^ 128)\<rparr>"

definition w256 :: "Uint256 \<Rightarrow> 256 word" where
  "w256 u = word_cat (w128 (hi256 u)) (w128 (lo256 u))"

text \<open>
  Modelled from the spec: \<open>Uint256.Pow\<close>, which \<open>decimal.go\<close> calls and the source of
  package \<open>uint256\<close> at hand does not contain.  The spec has integer power "raise the
  magnitude to the integer exponent using the 256-bit engine", with overflow as an error.
\<close>

definition Uint256_Pow :: "Uint256 \<Rightarrow> uint64 \<Rightarrow> Uint256 result" where
  "Uint256_Pow u e =
     (if val256 u ^ unat e < 2 ^ 256 then Ok (u256_of_nat (val256 u ^ unat e))
      else Error U256_ErrOverflow)"

section \<open>The coefficient type \<open>bint\<close> and \<open>math/big\<close>\<close>

text \<open>
  A \<open>*big.Int\<close> is an unbounded integer.  \<open>Quo\<close> and \<open>QuoRem\<close> truncate towards zero,
  \<open>Div\<close> is Euclidean; each of them panics on a zero divisor.
\<close>

definition big_QuoRem :: "int \<Rightarrow> int \<Rightarrow> (int \<times> int) result" where
  "big_QuoRem x y =
     (if y = 0 then Panic DivideError
      else Ok (sgn x * sgn y * (\<bar>x\<bar> div \<bar>y\<bar>), sgn x * (\<bar>x\<bar> mod \<bar>y\<bar>)))"

definition big_Quo :: "int \<Rightarrow> int \<Rightarrow> int result" where
  "big_Quo x y = (if y = 0 then Panic DivideError else Ok (sgn x * sgn y * (\<bar>x\<bar> div \<bar>y\<bar>)))"

definition big_Div :: "int \<Rightarrow> int \<Rightarrow> int result" where
  "big_Div x y = (if y = 0 then Panic DivideError else Ok ((x - x mod \<bar>y\<bar>) div y))"

text \<open>\<open>(*big.Int).Sqrt\<close>: the integer square root \<open>\<lfloor>\<surd>x\<rfloor>\<close>; it panics for negative x.\<close>

fun isqrt_upto :: "nat \<Rightarrow> nat \<Rightarrow> nat" where
  "isqrt_upto n 0 = 0"
| "isqrt_upto n (Suc k) = (if Suc k * Suc k \<le> n then Suc k else isqrt_upto n k)"

definition big_Sqrt :: "int \<Rightarrow> int result" where
  "big_Sqrt x = (if x < 0 then Panic OverflowError else Ok (int (isqrt_upto (nat x) (nat x))))"

text \<open>
  The struct \<open>bint\<close> as \<open>decimal.go\<close> uses it: the field \<open>bigInt\<close> (a pointer, \<open>nil\<close> on
  the fast path) and the field \<open>u128\<close>.
\<close>

record bint =
  bigInt :: "int option"
  u128 :: Uint128

text \<open>
  Modelled from the spec: the methods and constructors of \<open>bint\<close>, whose source file is
  not at hand.  The spec has the coefficient as "either an exact Word128 or an
  arbitrary-precision fallback"; "every binary operation (add, subtract, multiply) first
  attempts the Word128 fast path.  If either operand is already in fallback representation,
  or if the fast-path primitive signals overflow, the operation is re-executed using the
  arbitrary-precision representation, and the result is stored as Big"; the two
  representations are "numerically interchangeable" and comparison works "identically in
  either representation".  The fast-path primitives are the checked operations of
  \<open>uint128\<close>.  A subtraction whose result would be negative has no coefficient to return:
  it returns the zero value and an error.
\<close>

definition bint_overflow :: "bint \<Rightarrow> bool" where
  "bint_overflow c \<longleftrightarrow> bigInt c \<noteq> None"

definition bintFromU128 :: "Uint128 \<Rightarrow> bint" where
  "bintFromU128 u = \<lparr>bigInt = None, u128 = u\<rparr>"

definition bintFromU64 :: "uint64 \<Rightarrow> bint" where
  "bintFromU64 v = bintFromU128 (NewFromUint64 v)"

definition bintFromBigInt :: "int \<Rightarrow> bint" where
  "bintFromBigInt b = \<lparr>bigInt = Some b, u128 = Uint128_Zero\<rparr>"

definition bint_GetBig :: "bint \<Rightarrow> int" where
  "bint_GetBig c = (case bigInt c of Some b \<Rightarrow> b | None \<Rightarrow> Uint128_Big (u128 c))"

definition bint_IsZero :: "bint \<Rightarrow> bool" where
  "bint_IsZero c \<longleftrightarrow>
     (if bint_overflow c then bint_GetBig c = 0 else Uint128_IsZero (u128 c))"

definition bint_Add :: "bint \<Rightarrow> bint \<Rightarrow> bint" where
  "bint_Add a b =
     (if \<not> bint_overflow a \<and> \<not> bint_overflow b then
        (case Uint128_Add (u128 a) (u128 b) of
           Ok c \<Rightarrow> bintFromU128 c
         | Error _ \<Rightarrow> bintFromBigInt (bint_GetBig a + bint_GetBig b)
         | Panic _ \<Rightarrow> bintFromBigInt (bint_GetBig a + bint_GetBig b))
      else bintFromBigInt (bint_GetBig a + bint_GetBig b))"

definition bint_Mul :: "bint \<Rightarrow> bint \<Rightarrow> bint" where
  "bint_Mul a b =
     (if \<not> bint_overflow a \<and> \<not> bint_overflow b then
        (case Uint128_Mul (u128 a) (u128 b) of
           Ok c \<Rightarrow> bintFromU128 c
         | Error _ \<Rightarrow> bintFromBigInt (bint_GetBig a * bint_GetBig b)
         | Panic _ \<Rightarrow> bintFromBigInt (bint_GetBig a * bint_GetBig b))
      else bintFromBigInt (bint_GetBig a * bint_GetBig b))"

definition bint_Sub :: "bint \<Rightarrow> bint \<Rightarrow> bint \<times> error option" where
  "bint_Sub a b =
     (if \<not> bint_overflow a \<and> \<not> bint_overflow b then
        (case Uint128_Sub (u128 a) (u128 b) of
           Ok c \<Rightarrow> (bintFromU128 c, None)
         | Error e \<Rightarrow> (bintFromU128 Uint128_Zero, Some errOverflow)
         | Panic _ \<Rightarrow> (bintFromU128 Uint128_Zero, Some errOverflow))
      else if bint_GetBig a < bint_GetBig b then (bintFromU128 Uint128_Zero, Some errOverflow)
      else (bintFromBigInt (bint_GetBig a - bint_GetBig b), None))"

definition bint_Cmp :: "bint \<Rightarrow> bint \<Rightarrow> int" where
  "bint_Cmp a b =
     (if \<not> bint_overflow a \<and> \<not> bint_overflow b then Uint128_Cmp (u128 a) (u128 b)
      else if bint_GetBig a < bint_GetBig b then - 1
      else if bint_GetBig a = bint_GetBig b then 0
      else 1)"

definition bint_GT :: "bint \<Rightarrow> bint \<Rightarrow> bool" where
  "bint_GT a b \<longleftrightarrow> bint_Cmp a b = 1"

section \<open>Package \<open>decimal\<close>: values, constructors, addition, multiplication, division\<close>

type_synonym uint8 = "8 word"

text \<open>Sequencing of calls: an error or a panic of the first call ends the computation.\<close>

definition and_then :: "'a result \<Rightarrow> ('a \<Rightarrow> 'b result) \<Rightarrow> 'b result" where
  "and_then m f = (case m of Ok x \<Rightarrow> f x | Error e \<Rightarrow> Error e | Panic p \<Rightarrow> Panic p)"

text \<open>
  The package variables \<open>defaultPrec\<close> and \<open>maxPrec\<close>, at their initial value 19
  (\<open>SetDefaultPrecision\<close> is not called).
\<close>

definition defaultPrec :: uint8 where
  "defaultPrec = 19"

definition maxPrec :: uint8 where
  "maxPrec = 19"

text \<open>The table \<open>pow10\<close> of the powers of ten up to \<open>10^38\<close>; an index out of range panics.\<close>

definition pow10 :: "Uint128 list" where
  "pow10 =
     [NewFromUint64 1,
      NewFromUint64 10,
      NewFromUint64 100,
      NewFromUint64 1000,
      NewFromUint64 10000,
      NewFromUint64 100000,
      NewFromUint64 1000000,
      NewFromUint64 10000000,
      NewFromUint64 100000000,
      NewFromUint64 1000000000,
      NewFromUint64 10000000000,
      NewFromUint64 100000000000,
      NewFromUint64 1000000000000,
      NewFromUint64 10000000000000,
      NewFromUint64 100000000000000,
      NewFromUint64 1000000000000000,
      NewFromUint64 10000000000000000,
      NewFromUint64 100000000000000000,
      NewFromUint64 1000000000000000000,
      NewFromUint64 10000000000000000000,
      New 7766279631452241920 5,
      New 3875820019684212736 54,
      New 1864712049423024128 542,
      New 200376420520689664 5421,
      New 2003764205206896640 54210,
      New 1590897978359414784 542101,
      New 15908979783594147840 5421010,
      New 11515845246265065472 54210108,
      New 4477988020393345024 542101086,
      New 7886392056514347008 5421010862,
      New 5076944270305263616 54210108624,
      New 13875954555633532928 542101086242,
      New 9632337040368467968 5421010862427,
      New 4089650035136921600 54210108624275,
      New 4003012203950112768 542101086242752,
      New 3136633892082024448 5421010862427522,
      New 12919594847110692864 54210108624275221,
      New 68739955140067328 542101086242752217,
      New 687399551400673280 5421010862427522170]"

definition pow10_at :: "nat \<Rightarrow> Uint128 result" where
  "pow10_at i = (if i < 39 then Ok (pow10 ! i) else Panic IndexOutOfRange)"

definition pow10Big :: "int list" where
  "pow10Big =
     [1, 10, 100, 1000, 10000, 100000, 1000000, 10000000, 100000000, 1000000000,
      10000000000, 100000000000, 1000000000000, 10000000000000, 100000000000000,
      1000000000000000, 10000000000000000, 100000000000000000, 1000000000000000000,
      Uint128_Big (pow10 ! 19)]"

definition pow10Big_at :: "nat \<Rightarrow> int result" where
  "pow10Big_at i = (if i < 20 then Ok (pow10Big ! i) else Panic IndexOutOfRange)"

record Decimal =
  coef :: bint
  neg :: bool
  prec :: uint8

text \<open>\<open>Decimal{}\<close>, the zero value of the struct, is the package variable \<open>Zero\<close>.\<close>

definition Zero :: Decimal where
  "Zero = \<lparr>coef = \<lparr>bigInt = None, u128 = Uint128_Zero\<rparr>, neg = False, prec = 0\<rparr>"

definition newDecimal :: "bool \<Rightarrow> bint \<Rightarrow> uint8 \<Rightarrow> Decimal" where
  "newDecimal n c p = (if bint_IsZero c then Zero else \<lparr>coef = c, neg = n, prec = p\<rparr>)"

definition NewFromHiLo :: "bool \<Rightarrow> uint64 \<Rightarrow> uint64 \<Rightarrow> uint8 \<Rightarrow> Decimal result" where
  "NewFromHiLo n h l p =
     (if p > defaultPrec then Error ErrPrecOutOfRange
      else Ok (newDecimal n (bintFromU128 (New l h)) p))"

definition Decimal_NewFromUint64 :: "uint64 \<Rightarrow> uint8 \<Rightarrow> Decimal result" where
  "Decimal_NewFromUint64 c p =
     (if p > defaultPrec then Error ErrPrecOutOfRange
      else Ok (newDecimal False (bintFromU64 c) p))"

text \<open>
  Go's signed integers are words read in two's complement (\<open>sint\<close>).  In
  \<open>NewFromInt64\<close> the negation \<open>-coef\<close> wraps for the least value, and the conversion
  \<open>uint64(coef)\<close> keeps the bits.
\<close>

type_synonym int64 = "64 word"

type_synonym int32 = "32 word"

definition NewFromInt64 :: "int64 \<Rightarrow> uint8 \<Rightarrow> Decimal result" where
  "NewFromInt64 c p =
     (let n = (sint c < 0);
          c = (if sint c < 0 then - c else c)
      in if p > defaultPrec then Error ErrPrecOutOfRange
         else Ok (newDecimal n (bintFromU64 c) p))"

text \<open>\<open>One = MustFromInt64(1, 0)\<close> and \<open>oneUnit = MustFromUint64(1, 19)\<close>.\<close>

definition One :: Decimal where
  "One = newDecimal False (bintFromU64 1) 0"

definition oneUnit :: Decimal where
  "oneUnit = newDecimal False (bintFromU64 1) 19"

text \<open>
  \<open>parseBytes\<close>; the parser \<open>parseBint\<close> of the digits is not part of the source at hand
  and is a parameter.
\<close>

definition parseBytes ::
  "('b \<Rightarrow> (bool \<times> bint \<times> uint8) result) \<Rightarrow> 'b \<Rightarrow> Decimal result" where
  "parseBytes parseBint b =
     (case parseBint b of
        Ok (n, c, p) \<Rightarrow> Ok (newDecimal n c p)
      | Error e \<Rightarrow> Error e
      | Panic p \<Rightarrow> Panic p)"

text \<open>
  The scale alignment shared by \<open>Add\<close> and \<open>Sub\<close> (their first \<open>switch\<close>): the operand
  with fewer fractional digits is multiplied by a power of ten.
\<close>

definition alignCoefs :: "Decimal \<Rightarrow> Decimal \<Rightarrow> (bint \<times> bint \<times> uint8) result" where
  "alignCoefs d e =
     (if prec d = prec e then Ok (coef d, coef e, prec d)
      else if prec d > prec e then
        and_then (pow10_at (unat (prec d - prec e)))
          (\<lambda>p. Ok (coef d, bint_Mul (coef e) (bintFromU128 p), prec d))
      else
        and_then (pow10_at (unat (prec e - prec d)))
          (\<lambda>p. Ok (bint_Mul (coef d) (bintFromU128 p), coef e, prec e)))"

definition Decimal_Add :: "Decimal \<Rightarrow> Decimal \<Rightarrow> Decimal result" where
  "Decimal_Add d e =
     and_then (alignCoefs d e) (\<lambda>(dcoef, ecoef, p).
       if neg d = neg e then Ok (newDecimal (neg d) (bint_Add dcoef ecoef) p)
       else if bint_Cmp dcoef ecoef = 1
         then Ok (newDecimal (neg d) (fst (bint_Sub dcoef ecoef)) p)
         else Ok (newDecimal (neg e) (fst (bint_Sub ecoef dcoef)) p))"

definition Decimal_Sub :: "Decimal \<Rightarrow> Decimal \<Rightarrow> Decimal result" where
  "Decimal_Sub d e =
     and_then (alignCoefs d e) (\<lambda>(dcoef, ecoef, p).
       if neg d \<noteq> neg e then Ok (newDecimal (neg d) (bint_Add dcoef ecoef) p)
       else if bint_Cmp dcoef ecoef = 1
         then Ok (newDecimal (neg d) (fst (bint_Sub dcoef ecoef)) p)
         else Ok (newDecimal (\<not> neg d) (fst (bint_Sub ecoef dcoef)) p))"

definition Decimal_Add64 :: "Decimal \<Rightarrow> uint64 \<Rightarrow> Decimal result" where
  "Decimal_Add64 d e =
     and_then (pow10_at (unat (prec d))) (\<lambda>p.
       let ecoef = bint_Mul (bintFromU64 e) (bintFromU128 p)
       in if neg d then
            (if bint_GT (coef d) ecoef
             then Ok (newDecimal True (fst (bint_Sub (coef d) ecoef)) (prec d))
             else Ok (newDecimal False (fst (bint_Sub ecoef (coef d))) (prec d)))
          else Ok (newDecimal False (bint_Add (coef d) ecoef) (prec d)))"

definition Decimal_Sub64 :: "Decimal \<Rightarrow> uint64 \<Rightarrow> Decimal result" where
  "Decimal_Sub64 d e =
     and_then (pow10_at (unat (prec d))) (\<lambda>p.
       let ecoef = bint_Mul (bintFromU64 e) (bintFromU128 p)
       in if \<not> neg d then
            (if bint_GT (coef d) ecoef
             then Ok (newDecimal False (fst (bint_Sub (coef d) ecoef)) (prec d))
             else Ok (newDecimal True (fst (bint_Sub ecoef (coef d))) (prec d)))
          else Ok (newDecimal True (bint_Add (coef d) ecoef) (prec d)))"

definition tryMulU128 :: "Decimal \<Rightarrow> Decimal \<Rightarrow> bool \<Rightarrow> uint8 \<Rightarrow> Decimal result" where
  "tryMulU128 d e n p =
     (if bint_overflow (coef d) \<or> bint_overflow (coef e) then Error errOverflow
      else
        (let (hiProd, loProd) = Uint128_MulFull (u128 (coef d)) (u128 (coef e))
         in if p \<le> defaultPrec then
              (if \<not> Uint128_IsZero hiProd then Error errOverflow
               else Ok (newDecimal n (bintFromU128 loProd) p))
            else
              (let r256 = Uint256_New loProd hiProd
               in and_then (pow10_at (unat (p - defaultPrec))) (\<lambda>divisor128.
                    let divisor256 = Uint256_NewFromUint128 divisor128
                    in and_then (Uint256_QuoRem r256 divisor256) (\<lambda>(q256, _).
                         if \<not> Uint128_IsZero (Uint256_High q256) then Error errOverflow
                         else Ok (newDecimal n (bintFromU128 (Uint256_Low q256))
                                    defaultPrec))))))"

definition Decimal_Mul :: "Decimal \<Rightarrow> Decimal \<Rightarrow> Decimal result" where
  "Decimal_Mul d e =
     (let p = prec d + prec e;
          n = (neg d \<noteq> neg e)
      in case tryMulU128 d e n p of
           Ok v \<Rightarrow> Ok v
         | Panic pn \<Rightarrow> Panic pn
         | Error _ \<Rightarrow>
             (let dBig = bint_GetBig (coef d) * bint_GetBig (coef e)
              in if p \<le> defaultPrec then Ok (newDecimal n (bintFromBigInt dBig) p)
                 else and_then (pow10_at (unat (p - defaultPrec))) (\<lambda>f.
                        and_then (big_QuoRem dBig (Uint128_Big f)) (\<lambda>(q, _).
                          Ok (newDecimal n (bintFromBigInt q) defaultPrec)))))"

definition Decimal_Mul64 :: "Decimal \<Rightarrow> uint64 \<Rightarrow> Decimal" where
  "Decimal_Mul64 d v =
     (if v = 0 then Zero
      else if v = 1 then d
      else
        (let fallback = newDecimal (neg d) (bintFromBigInt (bint_GetBig (coef d) * uint v)) (prec d)
         in if \<not> bint_overflow (coef d) then
              (case Uint128_Mul64 (u128 (coef d)) v of
                 Ok c \<Rightarrow> newDecimal (neg d) (bintFromU128 c) (prec d)
               | Error _ \<Rightarrow> fallback
               | Panic _ \<Rightarrow> fallback)
            else fallback))"

definition tryDivU128 :: "Decimal \<Rightarrow> Decimal \<Rightarrow> bool \<Rightarrow> Decimal result" where
  "tryDivU128 d e n =
     (if bint_overflow (coef d) \<or> bint_overflow (coef e) then Error errOverflow
      else
        (let factor = defaultPrec - (prec d - prec e)
         in and_then (pow10_at (unat factor)) (\<lambda>f.
              let (hiProd, loProd) = Uint128_MulFull (u128 (coef d)) f;
                  dividend256 = Uint256_New loProd hiProd;
                  divisorU128 = u128 (coef e)
              in if Uint128_IsZero divisorU128 then Error ErrDivideByZero
                 else
                   (let divisor256 = Uint256_NewFromUint128 divisorU128
                    in and_then (Uint256_QuoRem dividend256 divisor256) (\<lambda>(q256, _).
                         if \<not> Uint128_IsZero (Uint256_High q256) then Error errOverflow
                         else Ok (newDecimal n (bintFromU128 (Uint256_Low q256))
                                    defaultPrec))))))"

definition Decimal_Div :: "Decimal \<Rightarrow> Decimal \<Rightarrow> Decimal result" where
  "Decimal_Div d e =
     (if bint_IsZero (coef e) then Error ErrDivideByZero
      else
        (let n = (neg d \<noteq> neg e)
         in case tryDivU128 d e n of
              Ok q \<Rightarrow> Ok q
            | Panic pn \<Rightarrow> Panic pn
            | Error _ \<Rightarrow>
                (let factor = defaultPrec - (prec d - prec e)
                 in and_then (pow10_at (unat factor)) (\<lambda>f.
                      and_then (big_Div (bint_GetBig (coef d) * Uint128_Big f)
                                  (bint_GetBig (coef e))) (\<lambda>q.
                        Ok (newDecimal n (bintFromBigInt q) defaultPrec))))))"

definition Decimal_Div64 :: "Decimal \<Rightarrow> uint64 \<Rightarrow> Decimal result" where
  "Decimal_Div64 d v =
     (if v = 0 then Error ErrDivideByZero
      else if v = 1 then Ok d
      else
        (let fallback =
               and_then (pow10_at (unat (defaultPrec - prec d))) (\<lambda>f.
                 and_then (big_Div (bint_GetBig (coef d) * Uint128_Big f) (uint v)) (\<lambda>q.
                   Ok (newDecimal (neg d) (bintFromBigInt q) defaultPrec)))
         in if \<not> bint_overflow (coef d) then
              and_then (pow10_at (unat (defaultPrec - prec d))) (\<lambda>f.
                let (hiProd, loProd) = Uint128_MulFull (u128 (coef d)) f;
                    dividend256 = Uint256_New loProd hiProd;
                    divisor256 = Uint256_NewFromUint64 v
                in case Uint256_QuoRem dividend256 divisor256 of
                     Ok (q256, _) \<Rightarrow>
                       if Uint128_IsZero (Uint256_High q256)
                       then Ok (newDecimal (neg d) (bintFromU128 (Uint256_Low q256)) defaultPrec)
                       else fallback
                   | Error _ \<Rightarrow> fallback
                   | Panic pn \<Rightarrow> Panic pn)
            else fallback))"

definition tryQuoRemU128 :: "Decimal \<Rightarrow> Decimal \<Rightarrow> (Decimal \<times> Decimal) result" where
  "tryQuoRemU128 d e =
     (if bint_overflow (coef d) \<or> bint_overflow (coef e) then Error errOverflow
      else
        and_then
          (if prec d = prec e
           then Ok (prec d, Uint256_NewFromUint128 (u128 (coef d)), u128 (coef e))
           else
             (let factor = max (prec d) (prec e)
              in and_then (pow10_at (unat (factor - prec d))) (\<lambda>scaleByD.
                   let (hiProdD, loProdD) = Uint128_MulFull (u128 (coef d)) scaleByD;
                       dividend256 = Uint256_New loProdD hiProdD
                   in and_then (pow10_at (unat (factor - prec e))) (\<lambda>scaleByE.
                        and_then (Uint128_Mul (u128 (coef e)) scaleByE) (\<lambda>divisorU128.
                          Ok (factor, dividend256, divisorU128))))))
          (\<lambda>(factor, dividend256, divisorU128).
             if Uint128_IsZero divisorU128 then Error ErrDivideByZero
             else
               (let divisor256 = Uint256_NewFromUint128 divisorU128
                in and_then (Uint256_QuoRem dividend256 divisor256) (\<lambda>(q256, r256).
                     if \<not> Uint128_IsZero (Uint256_High q256)
                        \<or> \<not> Uint128_IsZero (Uint256_High r256)
                     then Error errOverflow
                     else
                       Ok (newDecimal (neg d \<noteq> neg e) (bintFromU128 (Uint256_Low q256)) 0,
                           newDecimal (neg d) (bintFromU128 (Uint256_Low r256)) factor)))))"

text \<open>The part of \<open>QuoRem\<close> after the fast path has failed: the same on \<open>*big.Int\<close>.\<close>

definition quoRemBig :: "Decimal \<Rightarrow> Decimal \<Rightarrow> (Decimal \<times> Decimal) result" where
  "quoRemBig d e =
     (let factor = max (prec d) (prec e)
      in and_then (pow10_at (unat (factor - prec d))) (\<lambda>fd.
           and_then (pow10_at (unat (factor - prec e))) (\<lambda>fe.
             let dBig = bint_GetBig (coef d) * Uint128_Big fd;
                 eBig = bint_GetBig (coef e) * Uint128_Big fe
             in and_then (big_QuoRem dBig eBig) (\<lambda>(qBig, rBig).
                  Ok (newDecimal (neg d \<noteq> neg e) (bintFromBigInt qBig) 0,
                      newDecimal (neg d) (bintFromBigInt rBig) factor)))))"

definition Decimal_QuoRem :: "Decimal \<Rightarrow> Decimal \<Rightarrow> (Decimal \<times> Decimal) result" where
  "Decimal_QuoRem d e =
     (if bint_IsZero (coef e) then Error ErrDivideByZero
      else
        (case tryQuoRemU128 d e of
           Ok (q, r) \<Rightarrow> Ok (q, r)
         | Panic pn \<Rightarrow> Panic pn
         | Error _ \<Rightarrow> quoRemBig d e))"

definition Decimal_Mod :: "Decimal \<Rightarrow> Decimal \<Rightarrow> Decimal result" where
  "Decimal_Mod d e = and_then (Decimal_QuoRem d e) (\<lambda>(_, r). Ok r)"

definition tryCmpU128 :: "Decimal \<Rightarrow> Decimal \<Rightarrow> int result" where
  "tryCmpU128 d e =
     (if bint_overflow (coef d) \<or> bint_overflow (coef e) then Error errOverflow
      else if prec d = prec e then Ok (Uint128_Cmp (u128 (coef d)) (u128 (coef e)))
      else if prec d < prec e then
        and_then (pow10_at (unat (prec e - prec d))) (\<lambda>scaleFactor.
          let (hiProdD, loProdD) = Uint128_MulFull (u128 (coef d)) scaleFactor;
              valD256 = Uint256_New loProdD hiProdD
          in Ok (Uint256_Cmp128 valD256 (u128 (coef e))))
      else
        and_then (pow10_at (unat (prec d - prec e))) (\<lambda>scaleFactor.
          let (hiProdE, loProdE) = Uint128_MulFull (u128 (coef e)) scaleFactor;
              valE256 = Uint256_New loProdE hiProdE
          in Ok (- Uint256_Cmp128 valE256 (u128 (coef d)))))"

text \<open>\<open>(*big.Int).Cmp\<close>.\<close>

definition big_Cmp :: "int \<Rightarrow> int \<Rightarrow> int" where
  "big_Cmp x y = (if x < y then - 1 else if x = y then 0 else 1)"

definition cmpDecSameSign :: "Decimal \<Rightarrow> Decimal \<Rightarrow> int result" where
  "cmpDecSameSign d e =
     (case tryCmpU128 d e of
        Ok r \<Rightarrow> Ok r
      | Panic pn \<Rightarrow> Panic pn
      | Error _ \<Rightarrow>
          (let dBig = bint_GetBig (coef d); eBig = bint_GetBig (coef e)
           in if prec d = prec e then Ok (big_Cmp dBig eBig)
              else if prec d < prec e then
                and_then (pow10_at (unat (prec e - prec d))) (\<lambda>f.
                  Ok (big_Cmp (dBig * Uint128_Big f) eBig))
              else
                and_then (pow10_at (unat (prec d - prec e))) (\<lambda>f.
                  Ok (big_Cmp dBig (eBig * Uint128_Big f)))))"

definition Decimal_Cmp :: "Decimal \<Rightarrow> Decimal \<Rightarrow> int result" where
  "Decimal_Cmp d e =
     (if neg d \<and> \<not> neg e then Ok (- 1)
      else if \<not> neg d \<and> neg e then Ok 1
      else if neg d then and_then (cmpDecSameSign d e) (\<lambda>r. Ok (- r))
      else cmpDecSameSign d e)"

definition Decimal_Equal :: "Decimal \<Rightarrow> Decimal \<Rightarrow> bool result" where
  "Decimal_Equal d e = and_then (Decimal_Cmp d e) (\<lambda>r. Ok (r = 0))"

definition Decimal_Neg :: "Decimal \<Rightarrow> Decimal" where
  "Decimal_Neg d = newDecimal (\<not> neg d) (coef d) (prec d)"

definition Decimal_Abs :: "Decimal \<Rightarrow> Decimal" where
  "Decimal_Abs d = newDecimal False (coef d) (prec d)"

definition Decimal_IsZero :: "Decimal \<Rightarrow> bool" where
  "Decimal_IsZero d \<longleftrightarrow> bint_IsZero (coef d)"

section \<open>Package \<open>decimal\<close>: rounding, trailing zeros, powers, square root\<close>

text \<open>
  The four rounding modes, \<open>Floor\<close>, \<open>Ceil\<close> and \<open>Trunc\<close> share one shape: the fast
  path divides the 128-bit coefficient by the low limb of the power of ten and may add one;
  the path on \<open>*big.Int\<close> is taken when the coefficient is a \<open>*big.Int\<close> or when the
  addition overflows.
\<close>

definition Decimal_RoundBank :: "Decimal \<Rightarrow> uint8 \<Rightarrow> Decimal result" where
  "Decimal_RoundBank d p =
     (if p \<ge> prec d then Ok d
      else
        and_then (pow10_at (unat (prec d - p))) (\<lambda>factor.
          let lo = Uint128_Low factor div 2;
              fallback =
                and_then (big_QuoRem (bint_GetBig (coef d)) (Uint128_Big factor)) (\<lambda>(q, r).
                  let loBig = uint lo;
                      q = (if r > loBig \<or> (r = loBig \<and> q mod 2 = 1) then q + 1 else q)
                  in Ok (newDecimal (neg d) (bintFromBigInt q) p))
          in if \<not> bint_overflow (coef d) then
               and_then (Uint128_QuoRem64 (u128 (coef d)) (Uint128_Low factor)) (\<lambda>(q, r).
                 case (if lo < r \<or> (lo = r \<and> Uint128_Low q mod 2 = 1)
                       then Uint128_Add64 q 1 else Ok q) of
                   Ok q \<Rightarrow> Ok (newDecimal (neg d) (bintFromU128 q) p)
                 | Error _ \<Rightarrow> fallback
                 | Panic pn \<Rightarrow> Panic pn)
             else fallback))"

definition Decimal_RoundAwayFromZero :: "Decimal \<Rightarrow> uint8 \<Rightarrow> Decimal result" where
  "Decimal_RoundAwayFromZero d p =
     (if p \<ge> prec d then Ok d
      else
        and_then (pow10_at (unat (prec d - p))) (\<lambda>factor.
          let fallback =
                and_then (big_QuoRem (bint_GetBig (coef d)) (Uint128_Big factor)) (\<lambda>(q, r).
                  let q = (if r \<noteq> 0 then q + 1 else q)
                  in Ok (newDecimal (neg d) (bintFromBigInt q) p))
          in if \<not> bint_overflow (coef d) then
               and_then (Uint128_QuoRem64 (u128 (coef d)) (Uint128_Low factor)) (\<lambda>(q, r).
                 case (if r \<noteq> 0 then Uint128_Add64 q 1 else Ok q) of
                   Ok q \<Rightarrow> Ok (newDecimal (neg d) (bintFromU128 q) p)
                 | Error _ \<Rightarrow> fallback
                 | Panic pn \<Rightarrow> Panic pn)
             else fallback))"

definition Decimal_RoundHAZ :: "Decimal \<Rightarrow> uint8 \<Rightarrow> Decimal result" where
  "Decimal_RoundHAZ d p =
     (if p \<ge> prec d then Ok d
      else
        and_then (pow10_at (unat (prec d - p))) (\<lambda>factor.
          and_then (Uint128_QuoRem64 factor 2) (\<lambda>(half, _).
            let fallback =
                  and_then (big_QuoRem (bint_GetBig (coef d)) (Uint128_Big factor)) (\<lambda>(q, r).
                    let loBig = Uint128_Big half;
                        q = (if r \<ge> loBig then q + 1 else q)
                    in Ok (newDecimal (neg d) (bintFromBigInt q) p))
            in if \<not> bint_overflow (coef d) then
                 and_then (Uint128_QuoRem64 (u128 (coef d)) (Uint128_Low factor)) (\<lambda>(q, r).
                   case (if Uint128_Cmp64 half r \<le> 0 then Uint128_Add64 q 1 else Ok q) of
                     Ok q \<Rightarrow> Ok (newDecimal (neg d) (bintFromU128 q) p)
                   | Error _ \<Rightarrow> fallback
                   | Panic pn \<Rightarrow> Panic pn)
               else fallback)))"

definition Decimal_RoundHTZ :: "Decimal \<Rightarrow> uint8 \<Rightarrow> Decimal result" where
  "Decimal_RoundHTZ d p =
     (if p \<ge> prec d then Ok d
      else
        and_then (pow10_at (unat (prec d - p))) (\<lambda>factor.
          and_then (Uint128_QuoRem64 factor 2) (\<lambda>(half, _).
            let fallback =
                  and_then (big_QuoRem (bint_GetBig (coef d)) (Uint128_Big factor)) (\<lambda>(q, r).
                    let loBig = Uint128_Big half;
                        q = (if r > loBig then q + 1 else q)
                    in Ok (newDecimal (neg d) (bintFromBigInt q) p))
            in if \<not> bint_overflow (coef d) then
                 and_then (Uint128_QuoRem64 (u128 (coef d)) (Uint128_Low factor)) (\<lambda>(q, r).
                   case (if Uint128_Cmp64 half r < 0 then Uint128_Add64 q 1 else Ok q) of
                     Ok q \<Rightarrow> Ok (newDecimal (neg d) (bintFromU128 q) p)
                   | Error _ \<Rightarrow> fallback
                   | Panic pn \<Rightarrow> Panic pn)
               else fallback)))"

definition Decimal_Floor :: "Decimal \<Rightarrow> Decimal result" where
  "Decimal_Floor d =
     (if prec d = 0 then Ok d
      else
        and_then (pow10_at (unat (prec d))) (\<lambda>factor.
          let fallback =
                and_then (big_QuoRem (bint_GetBig (coef d)) (Uint128_Big factor)) (\<lambda>(q, r).
                  let q = (if neg d \<and> r \<noteq> 0 then q + 1 else q)
                  in Ok (newDecimal (neg d) (bintFromBigInt q) 0))
          in if \<not> bint_overflow (coef d) then
               and_then (Uint128_QuoRem64 (u128 (coef d)) (Uint128_Low factor)) (\<lambda>(q, r).
                 case (if neg d \<and> r \<noteq> 0 then Uint128_Add64 q 1 else Ok q) of
                   Ok q \<Rightarrow> Ok (newDecimal (neg d) (bintFromU128 q) 0)
                 | Error _ \<Rightarrow> fallback
                 | Panic pn \<Rightarrow> Panic pn)
             else fallback))"

definition Decimal_Ceil :: "Decimal \<Rightarrow> Decimal result" where
  "Decimal_Ceil d =
     (if prec d = 0 then Ok d
      else
        and_then (pow10_at (unat (prec d))) (\<lambda>factor.
          let fallback =
                and_then (big_QuoRem (bint_GetBig (coef d)) (Uint128_Big factor)) (\<lambda>(q, r).
                  let q = (if \<not> neg d \<and> r \<noteq> 0 then q + 1 else q)
                  in Ok (newDecimal (neg d) (bintFromBigInt q) 0))
          in if \<not> bint_overflow (coef d) then
               and_then (Uint128_QuoRem64 (u128 (coef d)) (Uint128_Low factor)) (\<lambda>(q, r).
                 case (if \<not> neg d \<and> r \<noteq> 0 then Uint128_Add64 q 1 else Ok q) of
                   Ok q \<Rightarrow> Ok (newDecimal (neg d) (bintFromU128 q) 0)
                 | Error _ \<Rightarrow> fallback
                 | Panic pn \<Rightarrow> Panic pn)
             else fallback))"

definition Decimal_Trunc :: "Decimal \<Rightarrow> uint8 \<Rightarrow> Decimal result" where
  "Decimal_Trunc d p =
     (if p \<ge> prec d then Ok d
      else
        and_then (pow10_at (unat (prec d - p))) (\<lambda>factor.
          if \<not> bint_overflow (coef d) then
            and_then (Uint128_QuoRem64 (u128 (coef d)) (Uint128_Low factor)) (\<lambda>(q, _).
              Ok (newDecimal (neg d) (bintFromU128 q) p))
          else
            and_then (big_Quo (bint_GetBig (coef d)) (Uint128_Big factor)) (\<lambda>q.
              Ok (newDecimal (neg d) (bintFromBigInt q) p))))"

text \<open>
  Counting trailing decimal zeros: "is n divisible by the i-th power of ten", on a
  \<open>*big.Int\<close> with the table \<open>pow10Big\<close> and on a \<open>Uint128\<close> with the low limb of
  \<open>pow10\<close>.
\<close>

definition bigDivisible :: "int \<Rightarrow> nat \<Rightarrow> bool result" where
  "bigDivisible n i =
     and_then (pow10Big_at i) (\<lambda>p. and_then (big_QuoRem n p) (\<lambda>(_, m). Ok (m = 0)))"

definition trailingZerosBigInt :: "int \<Rightarrow> uint8 result" where
  "trailingZerosBigInt n =
     and_then (bigDivisible n 16) (\<lambda>z16.
       if z16 then
         (let zeros = (16 :: uint8)
          in and_then (bigDivisible n (unat (zeros + 2))) (\<lambda>z.
               let zeros = (if z then zeros + 2 else zeros)
               in and_then (bigDivisible n (unat (zeros + 1))) (\<lambda>z.
                    Ok (if z then zeros + 1 else zeros))))
       else
         and_then (bigDivisible n 8) (\<lambda>z.
           let zeros = (if z then 8 else (0 :: uint8))
           in and_then (bigDivisible n (unat (zeros + 4))) (\<lambda>z.
                let zeros = (if z then zeros + 4 else zeros)
                in and_then (bigDivisible n (unat (zeros + 2))) (\<lambda>z.
                     let zeros = (if z then zeros + 2 else zeros)
                     in and_then (bigDivisible n (unat (zeros + 1))) (\<lambda>z.
                          Ok (if z then zeros + 1 else zeros))))))"

definition u128Divisible :: "Uint128 \<Rightarrow> nat \<Rightarrow> bool result" where
  "u128Divisible n i =
     and_then (pow10_at i) (\<lambda>p.
       and_then (Uint128_QuoRem64 n (Uint128_Low p)) (\<lambda>(_, rem). Ok (rem = 0)))"

definition trailingZerosU128 :: "Uint128 \<Rightarrow> uint8 result" where
  "trailingZerosU128 n =
     and_then (Uint128_QuoRem64 n 10000000000000000) (\<lambda>(_, rem).
       if rem = 0 then
         (let zeros = (16 :: uint8)
          in and_then (u128Divisible n (unat (zeros + 2))) (\<lambda>z.
               let zeros = (if z then zeros + 2 else zeros)
               in and_then (u128Divisible n (unat (zeros + 1))) (\<lambda>z.
                    Ok (if z then zeros + 1 else zeros))))
       else
         and_then (Uint128_QuoRem64 n 100000000) (\<lambda>(_, rem).
           let zeros = (if rem = 0 then 8 else (0 :: uint8))
           in and_then (u128Divisible n (unat (zeros + 4))) (\<lambda>z.
                let zeros = (if z then zeros + 4 else zeros)
                in and_then (u128Divisible n (unat (zeros + 2))) (\<lambda>z.
                     let zeros = (if z then zeros + 2 else zeros)
                     in and_then (u128Divisible n (unat (zeros + 1))) (\<lambda>z.
                          Ok (if z then zeros + 1 else zeros))))))"

text \<open>
  \<open>trimTrailingZeros\<close>.  On the fast path the errors of \<open>Uint128.QuoRem\<close> are discarded
  and the receiver is returned with the new coefficient and precision, its sign unchanged.
\<close>

definition trimTrailingZeros :: "Decimal \<Rightarrow> Decimal result" where
  "trimTrailingZeros d =
     (if bint_overflow (coef d) then
        and_then (trailingZerosBigInt (bint_GetBig (coef d))) (\<lambda>zeros.
          let dBig = bint_GetBig (coef d)
          in if zeros = 0 then Ok (newDecimal (neg d) (bintFromBigInt dBig) (prec d))
             else if zeros \<ge> prec d then
               and_then (pow10_at (unat (prec d))) (\<lambda>f.
                 and_then (big_Div dBig (Uint128_Big f)) (\<lambda>q.
                   Ok (newDecimal (neg d) (bintFromBigInt q) 0)))
             else
               and_then (pow10_at (unat zeros)) (\<lambda>f.
                 and_then (big_Div dBig (Uint128_Big f)) (\<lambda>q.
                   Ok (newDecimal (neg d) (bintFromBigInt q) (prec d - zeros)))))
      else
        and_then (trailingZerosU128 (u128 (coef d))) (\<lambda>zeros.
          if zeros = 0 then Ok (newDecimal (neg d) (bintFromU128 (u128 (coef d))) (prec d))
          else if zeros \<ge> prec d then
            and_then (pow10_at (unat (prec d))) (\<lambda>f.
              and_then (Uint128_QuoRem (u128 (coef d)) f) (\<lambda>(c, _, _).
                Ok (d\<lparr>coef := bintFromU128 c, prec := 0\<rparr>)))
          else
            and_then (pow10_at (unat zeros)) (\<lambda>f.
              and_then (Uint128_QuoRem (u128 (coef d)) f) (\<lambda>(c, _, _).
                Ok (d\<lparr>coef := bintFromU128 c, prec := prec d - zeros\<rparr>)))))"

text \<open>
  \<open>rescale\<close> (unexported) is the one place that builds a \<open>Decimal\<close> without
  \<open>newDecimal\<close>, so that a zero can keep a precision for display.
\<close>

definition rescale :: "Decimal \<Rightarrow> uint8 \<Rightarrow> Decimal result" where
  "rescale d p =
     and_then (trimTrailingZeros d) (\<lambda>dTrim.
       let p = (if p > maxPrec then maxPrec else p)
       in if p \<le> prec dTrim then Ok dTrim
          else
            and_then (pow10_at (unat (p - prec dTrim))) (\<lambda>f.
              Ok \<lparr>coef = bint_Mul (coef dTrim) (bintFromU128 f), neg = neg dTrim, prec = p\<rparr>))"

text \<open>
  \<open>(*big.Int).Exp(x, y, nil)\<close> is \<open>x ^ y\<close>, and 1 for \<open>y \<le> 0\<close>.  An index of type \<open>int\<close>
  into \<open>pow10\<close> panics when it is negative or too large.
\<close>

definition big_Exp :: "int \<Rightarrow> int \<Rightarrow> int" where
  "big_Exp x y = (if y \<le> 0 then 1 else x ^ nat y)"

definition pow10_at_int :: "int \<Rightarrow> Uint128 result" where
  "pow10_at_int i = (if 0 \<le> i \<and> i < 39 then Ok (pow10 ! nat i) else Panic IndexOutOfRange)"

text \<open>
  The exponent \<open>e\<close> of \<open>tryPowIntU128\<close>, \<open>tryInversePowIntU128\<close>, \<open>powIntInverse\<close> and
  \<open>PowInt\<close> is a Go \<open>int\<close> (64 bits, two's complement); products and negations wrap.
\<close>

definition tryPowIntU128 :: "Decimal \<Rightarrow> int64 \<Rightarrow> Decimal result" where
  "tryPowIntU128 d e =
     (if bint_overflow (coef d) then Error errOverflow
      else if e = 0 then Ok One
      else if e = 1 then Ok d
      else if sint e < 0 then
        Error (ErrOther ''negative exponent not supported in tryPowIntU128 fast path'')
      else if Uint128_High (u128 (coef d)) \<noteq> 0 \<and> sint e \<ge> 4 then Error errOverflow
      else
        (let n = (if sint e smod 2 = 0 then False else neg d);
             exponentPrec = (ucast (prec d) :: int64) * e
         in if sint exponentPrec > sint (ucast defaultPrec :: int64) + 38 then Error errOverflow
            else
              and_then (Uint256_Pow (Uint256_NewFromUint128 (u128 (coef d))) e) (\<lambda>result256.
                if sint exponentPrec \<le> sint (ucast defaultPrec :: int64) then
                  (if \<not> Uint128_IsZero (Uint256_High result256) then Error errOverflow
                   else Ok (newDecimal n (bintFromU128 (Uint256_Low result256))
                              (ucast exponentPrec)))
                else
                  and_then (pow10_at_int (sint (exponentPrec - ucast defaultPrec)))
                    (\<lambda>divisorU128.
                      let divisor256 = Uint256_NewFromUint128 divisorU128
                      in if Uint256_IsZero divisor256 then Error ErrDivideByZero
                         else
                           and_then (Uint256_QuoRem result256 divisor256) (\<lambda>(q256, _).
                             if \<not> Uint128_IsZero (Uint256_High q256) then Error errOverflow
                             else Ok (newDecimal n (bintFromU128 (Uint256_Low q256))
                                        defaultPrec))))))"

definition tryInversePowIntU128 :: "Decimal \<Rightarrow> int64 \<Rightarrow> Decimal result" where
  "tryInversePowIntU128 d e =
     (if bint_overflow (coef d) then Error errOverflow
      else if e = 0 then
        (if bint_IsZero (coef d) then Error ErrDivideByZero else Ok One)
      else if sint e < 0 then
        Error (ErrOther
          ''negative exponent in tryInversePowIntU128 means positive power, use tryPowIntU128'')
      else if Uint128_High (u128 (coef d)) \<noteq> 0 \<and> sint e \<ge> 4 then Error errOverflow
      else
        (let n = (if sint e smod 2 = 0 then False else neg d);
             exponentNumerator = (ucast (prec d) :: int64) * e + ucast defaultPrec
         in if sint exponentNumerator > 76 \<or> sint exponentNumerator < 0 then Error errOverflow
            else
              and_then (Uint256_Pow (Uint256_NewFromUint128 (u128 (coef d))) e)
                (\<lambda>denominatorB_256.
                  if \<not> Uint128_IsZero (Uint256_High denominatorB_256) then Error errOverflow
                  else
                    (let denominatorB_128 = Uint256_Low denominatorB_256
                     in if Uint128_IsZero denominatorB_128 then Error ErrDivideByZero
                        else if sint exponentNumerator \<le> 38 then
                          and_then (pow10_at_int (sint exponentNumerator)) (\<lambda>numeratorN_128.
                            and_then (Uint128_QuoRem numeratorN_128 denominatorB_128)
                              (\<lambda>(q, _, errDiv).
                                 case errDiv of
                                   Some err \<Rightarrow> Error err
                                 | None \<Rightarrow> Ok (newDecimal n (bintFromU128 q) defaultPrec)))
                        else
                          and_then (pow10_at_int (sint exponentNumerator - 38)) (\<lambda>term1_128.
                            and_then (pow10_at_int 38) (\<lambda>term2_128.
                              let (hiProdN, loProdN) = Uint128_MulFull term1_128 term2_128;
                                  numeratorN_256 = Uint256_New loProdN hiProdN;
                                  denominatorB_forDiv_256 =
                                    Uint256_NewFromUint128 denominatorB_128
                              in and_then
                                   (Uint256_QuoRem numeratorN_256 denominatorB_forDiv_256)
                                   (\<lambda>(q256, _).
                                      if \<not> Uint128_IsZero (Uint256_High q256)
                                      then Error errOverflow
                                      else Ok (newDecimal n (bintFromU128 (Uint256_Low q256))
                                                 defaultPrec))))))))"

definition powIntInverse :: "Decimal \<Rightarrow> int64 \<Rightarrow> Decimal result" where
  "powIntInverse d e =
     (case tryInversePowIntU128 d e of
        Ok q \<Rightarrow> Ok q
      | Panic pn \<Rightarrow> Panic pn
      | Error _ \<Rightarrow>
          (let dBig = bint_GetBig (coef d);
               powPrecision = (ucast (prec d) :: int64) * e;
               m = big_Exp 10 (sint (powPrecision + ucast defaultPrec));
               dBig = big_Exp dBig (sint e)
           in and_then (big_Quo m dBig) (\<lambda>qBig.
                let n = (if sint e smod 2 = 0 then False else neg d)
                in Ok (newDecimal n (bintFromBigInt qBig) defaultPrec))))"

text \<open>
  \<open>PowInt\<close> (deprecated in the source): zero to any power is zero, also \<open>0^0\<close> and zero
  to a negative power.
\<close>

definition Decimal_PowInt :: "Decimal \<Rightarrow> int64 \<Rightarrow> Decimal result" where
  "Decimal_PowInt d e =
     (if bint_IsZero (coef d) then Ok Zero
      else if e = 0 then Ok One
      else if e = 1 then Ok d
      else
        and_then (trimTrailingZeros d) (\<lambda>dTrim.
          if sint e < 0 then powIntInverse dTrim (- e)
          else
            (case tryPowIntU128 dTrim e of
               Ok q \<Rightarrow> Ok q
             | Panic pn \<Rightarrow> Panic pn
             | Error _ \<Rightarrow>
                 (let dBig = bint_GetBig (coef dTrim);
                      powPrecision = (ucast (prec dTrim) :: int64) * e;
                      factor = (if sint powPrecision \<ge> sint (ucast defaultPrec :: int64)
                                then powPrecision - ucast defaultPrec else 0);
                      powPrecision = (if sint powPrecision \<ge> sint (ucast defaultPrec :: int64)
                                      then ucast defaultPrec else powPrecision);
                      m = big_Exp 10 (sint factor);
                      dBig = big_Exp dBig (sint e)
                  in and_then (big_Quo dBig m) (\<lambda>qBig.
                       let n = (if sint e smod 2 = 0 then False else neg d)
                       in Ok (newDecimal n (bintFromBigInt qBig) (ucast powPrecision)))))))"

text \<open>
  \<open>PowInt32\<close>: the exponent is an \<open>int32\<close>; \<open>int(e)\<close> and \<open>int(-e)\<close> extend the sign,
  and the precision of the result is computed in 32 bits.
\<close>

definition Decimal_PowInt32 :: "Decimal \<Rightarrow> int32 \<Rightarrow> Decimal result" where
  "Decimal_PowInt32 d e =
     (if bint_IsZero (coef d) \<and> sint e < 0 then Error ErrZeroPowNegative
      else if e = 0 then Ok One
      else if e = 1 then Ok d
      else
        and_then (trimTrailingZeros d) (\<lambda>dTrim.
          if sint e < 0 then powIntInverse dTrim (scast (- e))
          else
            (case tryPowIntU128 dTrim (scast e) of
               Ok q \<Rightarrow> Ok q
             | Panic pn \<Rightarrow> Panic pn
             | Error _ \<Rightarrow>
                 (let dBig = bint_GetBig (coef dTrim);
                      powPrecision = (ucast (prec dTrim) :: int32) * e;
                      factor = (if sint powPrecision \<ge> sint (ucast defaultPrec :: int32)
                                then powPrecision - ucast defaultPrec else 0);
                      powPrecision = (if sint powPrecision \<ge> sint (ucast defaultPrec :: int32)
                                      then ucast defaultPrec else powPrecision);
                      m = big_Exp 10 (sint factor);
                      dBig = big_Exp dBig (sint e)
                  in and_then (big_Quo dBig m) (\<lambda>qBig.
                       let n = (if sint e smod 2 = 0 then False else neg d)
                       in Ok (newDecimal n (bintFromBigInt qBig) (ucast powPrecision)))))))"

text \<open>\<open>PowToIntPart\<close>: the exponent is the integer part of a \<open>Decimal\<close>.\<close>

definition Decimal_PowToIntPart :: "Decimal \<Rightarrow> Decimal \<Rightarrow> Decimal result" where
  "Decimal_PowToIntPart d e =
     (if bint_IsZero (coef d) \<and> neg e then Error ErrZeroPowNegative
      else
        and_then (Decimal_Trunc e 0) (\<lambda>eInt.
          if bint_overflow (coef eInt) \<or> Uint128_Cmp64 (u128 (coef eInt)) 2147483647 > 0
          then Error ErrExponentTooLarge
          else
            (let exponent = (ucast (Uint128_Low (u128 (coef eInt))) :: int32);
                 exponent = (if neg eInt then - exponent else exponent)
             in Decimal_PowInt32 d exponent)))"

text \<open>
  The Newton iteration of \<open>sqrtU128\<close>, \<open>for { ... }\<close>: it leaves the loop with the estimate
  when \<open>x1 == x\<close>, or with an error; a run that never leaves the loop has no value
  (\<open>None\<close>).
\<close>

partial_function (option) sqrtLoop :: "Uint256 \<Rightarrow> Uint128 \<Rightarrow> Uint128 result option" where
  "sqrtLoop scaledCoef256 x_u128 =
     (if Uint128_IsZero x_u128 then Some (Error (ErrOther ''sqrt iteration led to zero guess''))
      else
        (case Uint256_QuoRem scaledCoef256 (Uint256_NewFromUint128 x_u128) of
           Error e \<Rightarrow> Some (Error e)
         | Panic pn \<Rightarrow> Some (Panic pn)
         | Ok (y_u256, _) \<Rightarrow>
             if \<not> Uint128_IsZero (Uint256_High y_u256) then Some (Error errOverflow)
             else
               (let y_u128 = Uint256_Low y_u256;
                    (x1_u128_sum, carry) = Uint128_AddCarry x_u128 y_u128 0
                in if carry \<noteq> 0 then Some (Error errOverflow)
                   else
                     (let x1_u128 = Uint128_Rsh x1_u128_sum 1
                      in if Uint128_Cmp x1_u128 x_u128 = 0 then Some (Ok x1_u128)
                         else sqrtLoop scaledCoef256 x1_u128))))"

text \<open>The scaled coefficient and the initial guess of \<open>sqrtU128\<close>, before the loop.\<close>

definition sqrtStart :: "Decimal \<Rightarrow> (Uint256 \<times> Uint128) option result" where
  "sqrtStart d =
     (let factor = sint (ucast (2 * defaultPrec) :: int64) - sint (ucast (prec d) :: int64)
      in if factor < 0 \<or> factor \<ge> 39
         then Error (ErrOther ''scaling factor out of range for sqrtU128'')
         else
           and_then (pow10_at_int factor) (\<lambda>scaleVal.
             let (hiProd, loProd) = Uint128_MulFull (u128 (coef d)) scaleVal;
                 scaledCoef256 = Uint256_New loProd hiProd
             in if Uint128_High (Uint256_High scaledCoef256) \<noteq> 0 then Error errOverflow
                else
                  (let bitLen = Uint256_BitLen scaledCoef256
                   in if bitLen = 0 then Ok None
                      else
                        (let shiftAmount = (bitLen + 1) div 2;
                             x_u128 =
                               (if shiftAmount \<ge> 128 then
                                  (if shiftAmount > 127 then Uint128_Max
                                   else Uint128_Lsh (New 1 0) shiftAmount)
                                else Uint128_Lsh (New 1 0) shiftAmount)
                         in Ok (Some (scaledCoef256, x_u128))))))"

definition sqrtU128 :: "Decimal \<Rightarrow> Decimal result option" where
  "sqrtU128 d =
     (case sqrtStart d of
        Error e \<Rightarrow> Some (Error e)
      | Panic pn \<Rightarrow> Some (Panic pn)
      | Ok None \<Rightarrow> Some (Ok Zero)
      | Ok (Some (scaledCoef256, x_u128)) \<Rightarrow>
          (case sqrtLoop scaledCoef256 x_u128 of
             None \<Rightarrow> None
           | Some (Error e) \<Rightarrow> Some (Error e)
           | Some (Panic pn) \<Rightarrow> Some (Panic pn)
           | Some (Ok x) \<Rightarrow> Some (Ok (newDecimal False (bintFromU128 x) defaultPrec))))"

definition Decimal_Sqrt :: "Decimal \<Rightarrow> Decimal result option" where
  "Decimal_Sqrt d =
     (if neg d then Some (Error ErrSqrtNegative)
      else if bint_IsZero (coef d) then Some (Ok Zero)
      else
        (case Decimal_Cmp d One of
           Panic pn \<Rightarrow> Some (Panic pn)
         | Error e \<Rightarrow> Some (Error e)
         | Ok c \<Rightarrow>
             if c = 0 then Some (Ok One)
             else
               (let fallback =
                      Some (and_then (pow10_at (unat (2 * defaultPrec - prec d))) (\<lambda>f.
                        and_then (big_Sqrt (bint_GetBig (coef d) * Uint128_Big f)) (\<lambda>s.
                          Ok (newDecimal False (bintFromBigInt s) defaultPrec))))
                in if \<not> bint_overflow (coef d) then
                     (case sqrtU128 d of
                        None \<Rightarrow> None
                      | Some (Ok q) \<Rightarrow> Some (Ok q)
                      | Some (Panic pn) \<Rightarrow> Some (Panic pn)
                      | Some (Error _) \<Rightarrow> fallback)
                   else fallback)))"

section \<open>The number a \<open>Decimal\<close> stands for\<close>

text \<open>\<open>(-1)^neg * coef / 10^prec\<close>, as a rational number.\<close>

definition Decimal_value :: "Decimal \<Rightarrow> rat" where
  "Decimal_value d =
     (if neg d then - 1 else 1) * of_int (bint_GetBig (coef d)) / 10 ^ unat (prec d)"

section \<open>Particular operands\<close>

text \<open>
  \<open>quoRemD\<close> is \<open>2^70 / 10\<close> and \<open>quoRemE\<close> is \<open>1844674407370955161 * 2^64 + 2^64 - 1\<close>, as
  \<open>NewFromHiLo\<close> builds them; \<open>sqrtD\<close> is \<open>0.9999999999999999998\<close>, as \<open>NewFromUint64\<close> builds it.
\<close>

definition quoRemD :: Decimal where
  "quoRemD = \<lparr>coef = bintFromU128 (New 0 64), neg = False, prec = 1\<rparr>"

definition quoRemE :: Decimal where
  "quoRemE = \<lparr>coef = bintFromU128 (New 18446744073709551615 1844674407370955161),
            neg = False, prec = 0\<rparr>"

definition sqrtD :: Decimal where
  "sqrtD = \<lparr>coef = bintFromU64 9999999999999999998, neg = False, prec = 19\<rparr>"

section \<open>The canonical zero and the values the exported operations produce\<close>

text \<open>
  A \<open>Decimal\<close> is canonical at zero when a zero coefficient only occurs in \<open>Zero\<close> itself
  (no sign, precision 0, coefficient in 128 bits).
\<close>

definition canonicalZero :: "Decimal \<Rightarrow> bool" where
  "canonicalZero d \<longleftrightarrow> (bint_IsZero (coef d) \<longrightarrow> d = Zero)"

text \<open>
  The values that the exported constructors, the parser (for any \<open>parseBint\<close> on bytes),
  and the exported arithmetic and rounding operations return, starting from \<open>Zero\<close> and
  \<open>One\<close>.  The unexported \<open>rescale\<close> is not among them.
\<close>

inductive reachable :: "Decimal \<Rightarrow> bool" where
  r_Zero: "reachable Zero"
| r_One: "reachable One"
| r_NewFromHiLo: "NewFromHiLo n h l p = Ok d \<Longrightarrow> reachable d"
| r_NewFromUint64: "Decimal_NewFromUint64 c p = Ok d \<Longrightarrow> reachable d"
| r_NewFromInt64: "NewFromInt64 i p = Ok d \<Longrightarrow> reachable d"
| r_Parse: "parseBytes (pb :: 8 word list \<Rightarrow> (bool \<times> bint \<times> uint8) result) b = Ok d
            \<Longrightarrow> reachable d"
| r_Add: "reachable d \<Longrightarrow> reachable e \<Longrightarrow> Decimal_Add d e = Ok r \<Longrightarrow> reachable r"
| r_Sub: "reachable d \<Longrightarrow> reachable e \<Longrightarrow> Decimal_Sub d e = Ok r \<Longrightarrow> reachable r"
| r_Mul: "reachable d \<Longrightarrow> reachable e \<Longrightarrow> Decimal_Mul d e = Ok r \<Longrightarrow> reachable r"
| r_Div: "reachable d \<Longrightarrow> reachable e \<Longrightarrow> Decimal_Div d e = Ok r \<Longrightarrow> reachable r"
| r_Quo: "reachable d \<Longrightarrow> reachable e \<Longrightarrow> Decimal_QuoRem d e = Ok (q, r) \<Longrightarrow> reachable q"
| r_Rem: "reachable d \<Longrightarrow> reachable e \<Longrightarrow> Decimal_QuoRem d e = Ok (q, r) \<Longrightarrow> reachable r"
| r_Mod: "reachable d \<Longrightarrow> reachable e \<Longrightarrow> Decimal_Mod d e = Ok r \<Longrightarrow> reachable r"
| r_Add64: "reachable d \<Longrightarrow> Decimal_Add64 d v = Ok r \<Longrightarrow> reachable r"
| r_Sub64: "reachable d \<Longrightarrow> Decimal_Sub64 d v = Ok r \<Longrightarrow> reachable r"
| r_Mul64: "reachable d \<Longrightarrow> reachable (Decimal_Mul64 d v)"
| r_Div64: "reachable d \<Longrightarrow> Decimal_Div64 d v = Ok r \<Longrightarrow> reachable r"
| r_Neg: "reachable d \<Longrightarrow> reachable (Decimal_Neg d)"
| r_Abs: "reachable d \<Longrightarrow> reachable (Decimal_Abs d)"
| r_RoundBank: "reachable d \<Longrightarrow> Decimal_RoundBank d p = Ok r \<Longrightarrow> reachable r"
| r_RoundAwayFromZero: "reachable d \<Longrightarrow> Decimal_RoundAwayFromZero d p = Ok r \<Longrightarrow> reachable r"
| r_RoundHAZ: "reachable d \<Longrightarrow> Decimal_RoundHAZ d p = Ok r \<Longrightarrow> reachable r"
| r_RoundHTZ: "reachable d \<Longrightarrow> Decimal_RoundHTZ d p = Ok r \<Longrightarrow> reachable r"
| r_Floor: "reachable d \<Longrightarrow> Decimal_Floor d = Ok r \<Longrightarrow> reachable r"
| r_Ceil: "reachable d \<Longrightarrow> Decimal_Ceil d = Ok r \<Longrightarrow> reachable r"
| r_Trunc: "reachable d \<Longrightarrow> Decimal_Trunc d p = Ok r \<Longrightarrow> reachable r"
| r_PowInt: "reachable d \<Longrightarrow> Decimal_PowInt d x = Ok r \<Longrightarrow> reachable r"
| r_PowInt32: "reachable d \<Longrightarrow> Decimal_PowInt32 d y = Ok r \<Longrightarrow> reachable r"
| r_PowToIntPart:
    "reachable d \<Longrightarrow> reachable e \<Longrightarrow> Decimal_PowToIntPart d e = Ok r \<Longrightarrow> reachable r"
| r_Sqrt: "reachable d \<Longrightarrow> Decimal_Sqrt d = Some (Ok r) \<Longrightarrow> reachable r"
section \<open>Facts about \<open>math/bits\<close> and \<open>uint128\<close>\<close>

lemma unat_lt64: "unat (x :: uint64) < 18446744073709551616"
  using unsigned_less [of x, where 'a = nat] by simp

lemma w64_two_p64 [simp]: "(18446744073709551616 :: uint64) = 0"
  by (simp add: word_eq_iff_unsigned [where ?'a = nat])

lemma val128_lt: "val128 u < 340282366920938463463374607431768211456"
  using unat_lt64 [of "hi u"] unat_lt64 [of "lo u"] unfolding val128_def by simp

lemma u128_of_nat_val128 [simp]: "u128_of_nat (val128 u) = u"
  by (simp add: u128_of_nat_def val128_def unat_lt64)

lemma val128_u128_of_nat: "val128 (u128_of_nat n) = n mod 2 ^ 128"
proof -
  have "val128 (u128_of_nat n) = (n div 2 ^ 64) mod 2 ^ 64 * 2 ^ 64 + n mod 2 ^ 64"
    by (simp add: val128_def u128_of_nat_def unat_of_nat)
  also have "\<dots> = n mod 2 ^ 128"
  proof -
    have "n mod 2 ^ 128 = n mod (2 ^ 64 * 2 ^ 64)" by simp
    also have "\<dots> = 2 ^ 64 * (n div 2 ^ 64 mod 2 ^ 64) + n mod 2 ^ 64"
      by (rule mod_mult2_eq)
    finally show ?thesis by simp
  qed
  finally show ?thesis .
qed

lemma val128_u128_of_nat_less: "n < 2 ^ 128 \<Longrightarrow> val128 (u128_of_nat n) = n"
  by (simp add: val128_u128_of_nat)

lemma u128_of_nat_mod: "u128_of_nat (n mod 2 ^ 128) = u128_of_nat n"
  by (metis val128_u128_of_nat u128_of_nat_val128)

lemma val128_inj: "val128 u = val128 v \<Longrightarrow> u = v"
  by (metis u128_of_nat_val128)

lemma u128_eqI: "val128 u = n \<Longrightarrow> u = u128_of_nat n"
  by (metis u128_of_nat_val128)

lemma val128_mk [simp]: "val128 \<lparr>lo = l, hi = h\<rparr> = unat h * 2 ^ 64 + unat l"
  by (simp add: val128_def)

lemma bits_Add64_sum:
  assumes "bits_Add64 x y c = (s, co)" "unat c \<le> 1"
  shows "unat s + 18446744073709551616 * unat co = unat x + unat y + unat c"
    and "unat co \<le> 1"
proof -
  let ?t = "unat x + unat y + unat c"
  have s: "unat s = ?t mod 2 ^ 64"
    using assms(1) by (auto simp: bits_Add64_def unat_word_ariths mod_simps)
  have lt: "?t < 2 * 2 ^ 64"
    using unat_lt64 [of x] unat_lt64 [of y] assms(2) by simp
  have co: "unat co = ?t div 2 ^ 64"
  proof (cases "2 ^ 64 \<le> ?t")
    case True
    then have "?t div 2 ^ 64 = 1" using lt by simp
    with True show ?thesis using assms(1) by (auto simp: bits_Add64_def)
  next
    case False
    then have "?t div 2 ^ 64 = 0" by simp
    with False show ?thesis using assms(1) by (auto simp: bits_Add64_def)
  qed
  show "unat s + 18446744073709551616 * unat co = ?t"
    unfolding s co by simp
  show "unat co \<le> 1" using lt unfolding co by simp
qed

lemma bits_Sub64_diff:
  assumes "bits_Sub64 x y b = (d, bo)" "unat b \<le> 1"
  shows "unat d + unat y + unat b = unat x + 18446744073709551616 * unat bo"
    and "unat bo \<le> 1"
proof -
  have d: "d = x - y - b" and bo: "bo = (if unat x < unat y + unat b then 1 else 0)"
    using assms(1) by (auto simp: bits_Sub64_def)
  show "unat bo \<le> 1" by (simp add: bo)
  have t: "unat (x - y) = (if unat y \<le> unat x then unat x - unat y
                           else unat x + 18446744073709551616 - unat y)"
    by (simp add: unat_sub_if_size word_size)
  have u: "unat d = (if unat b \<le> unat (x - y) then unat (x - y) - unat b
                     else unat (x - y) + 18446744073709551616 - unat b)"
    unfolding d by (simp add: unat_sub_if_size word_size)
  show "unat d + unat y + unat b = unat x + 18446744073709551616 * unat bo"
    using unat_lt64 [of x] unat_lt64 [of y] assms(2)
    unfolding u t bo by (simp split: if_splits, arith)
qed

lemma bits_Mul64_prod:
  assumes "bits_Mul64 x y = (h, l)"
  shows "unat l + 18446744073709551616 * unat h = unat x * unat y"
proof -
  have lt: "unat x * unat y < 2 ^ 64 * 2 ^ 64"
    using unat_lt64 [of x] unat_lt64 [of y] by (intro mult_strict_mono) auto
  have l: "unat l = (unat x * unat y) mod 2 ^ 64"
    using assms by (auto simp: bits_Mul64_def unat_word_ariths)
  have "unat x * unat y div 2 ^ 64 < 2 ^ 64"
    using lt by (simp add: less_mult_imp_div_less)
  then have h: "unat h = unat x * unat y div 2 ^ 64"
    using assms by (auto simp: bits_Mul64_def unat_of_nat)
  show ?thesis unfolding l h by simp
qed

lemma unat_le1_cases: "unat (c :: uint64) \<le> 1 \<Longrightarrow> c = 0 \<or> c = 1"
  by (auto simp: word_unat_eq_iff le_Suc_eq)

lemma Uint128_AddCarry_sum:
  assumes "Uint128_AddCarry u v c = (s, co)" "unat c \<le> 1"
  shows "val128 s + 340282366920938463463374607431768211456 * unat co = val128 u + val128 v + unat c"
    and "unat co \<le> 1"
proof -
  obtain l c0 where 1: "bits_Add64 (lo u) (lo v) c = (l, c0)" by fastforce
  obtain h c1 where 2: "bits_Add64 (hi u) (hi v) c0 = (h, c1)" by fastforce
  have s: "s = \<lparr>lo = l, hi = h\<rparr>" and co: "co = c1"
    using assms(1) by (simp_all add: Uint128_AddCarry_def 1 2)
  note a = bits_Add64_sum [OF 1 assms(2)]
  note b = bits_Add64_sum [OF 2 a(2)]
  show "unat co \<le> 1" using b(2) co by simp
  show "val128 s + 340282366920938463463374607431768211456 * unat co = val128 u + val128 v + unat c"
    using a(1) b(1) unfolding s co val128_def by simp
qed

lemma Uint128_SubBorrow_diff:
  assumes "Uint128_SubBorrow u v b = (d, bo)" "unat b \<le> 1"
  shows "val128 d + val128 v + unat b = val128 u + 340282366920938463463374607431768211456 * unat bo"
    and "unat bo \<le> 1"
proof -
  obtain l b0 where 1: "bits_Sub64 (lo u) (lo v) b = (l, b0)" by fastforce
  obtain h b1 where 2: "bits_Sub64 (hi u) (hi v) b0 = (h, b1)" by fastforce
  have s: "d = \<lparr>lo = l, hi = h\<rparr>" and co: "bo = b1"
    using assms(1) by (simp_all add: Uint128_SubBorrow_def 1 2)
  note a = bits_Sub64_diff [OF 1 assms(2)]
  note b = bits_Sub64_diff [OF 2 a(2)]
  show "unat bo \<le> 1" using b(2) co by simp
  show "val128 d + val128 v + unat b = val128 u + 340282366920938463463374607431768211456 * unat bo"
    using a(1) b(1) unfolding s co val128_def by simp
qed

lemma div_lt_bound: "(a::nat) < N \<Longrightarrow> a div b < N"
  by (rule le_less_trans [OF div_le_dividend])

lemma mod_lt_bound: "(a::nat) < N \<Longrightarrow> a mod b < N"
  by (rule le_less_trans [OF mod_less_eq_dividend])

lemma mod_uniq: "s + M * c = (t::nat) \<Longrightarrow> s < M \<Longrightarrow> t mod M = s"
  by (metis mod_less mod_mult_self2)

lemma val128_NewFromUint64 [simp]: "val128 (NewFromUint64 v) = unat v"
  by (simp add: NewFromUint64_def New_def)

lemma Uint128_Add_AddCarry:
  "Uint128_Add u v = (case Uint128_AddCarry u v 0 of (s, c) \<Rightarrow>
      if c \<noteq> 0 then Error U128_ErrOverflow else Ok s)"
  by (simp add: Uint128_Add_def Uint128_AddCarry_def split: prod.splits)

lemma Uint128_Add_eq:
  "Uint128_Add u v =
     (if val128 u + val128 v < 2 ^ 128 then Ok (u128_of_nat (val128 u + val128 v))
      else Error U128_ErrOverflow)"
proof -
  obtain s c where 1: "Uint128_AddCarry u v 0 = (s, c)" by fastforce
  note a = Uint128_AddCarry_sum [OF 1]
  have c: "c = 0 \<or> c = 1" using a(2) by (simp add: unat_le1_cases)
  show ?thesis
  proof (cases "c = 0")
    case True
    then have "val128 s = val128 u + val128 v" using a(1) by simp
    then show ?thesis
      using val128_lt [of s] True by (simp add: Uint128_Add_AddCarry 1 u128_eqI)
  next
    case False
    then have "c = 1" using c by simp
    then have "\<not> val128 u + val128 v < 2 ^ 128" using a(1) by simp
    then show ?thesis using False by (simp add: Uint128_Add_AddCarry 1)
  qed
qed

lemma Uint128_AddWrap_eq: "Uint128_AddWrap u v = u128_of_nat (val128 u + val128 v)"
proof -
  obtain s c where 1: "Uint128_AddCarry u v 0 = (s, c)" by fastforce
  note a = Uint128_AddCarry_sum [OF 1]
  have w: "Uint128_AddWrap u v = s"
    using 1 by (simp add: Uint128_AddWrap_def Uint128_AddCarry_def split: prod.splits)
  have "val128 s = (val128 u + val128 v) mod 2 ^ 128"
    using mod_uniq [OF a(1)] val128_lt [of s] by simp
  then show ?thesis unfolding w by (metis u128_eqI u128_of_nat_mod)
qed

lemma Uint128_Add64_Add: "Uint128_Add64 u v = Uint128_Add u (NewFromUint64 v)"
  by (simp add: Uint128_Add64_def Uint128_Add_def NewFromUint64_def New_def)

lemma Uint128_AddWrap64_AddWrap: "Uint128_AddWrap64 u v = Uint128_AddWrap u (NewFromUint64 v)"
  by (simp add: Uint128_AddWrap64_def Uint128_AddWrap_def NewFromUint64_def New_def
      bits_Add64_def split: prod.splits)

lemma Uint128_Sub_SubBorrow:
  "Uint128_Sub u v = (case Uint128_SubBorrow u v 0 of (s, c) \<Rightarrow>
      if c \<noteq> 0 then Error U128_ErrUnderflow else Ok s)"
  by (simp add: Uint128_Sub_def Uint128_SubBorrow_def split: prod.splits)

lemma Uint128_Sub_eq:
  "Uint128_Sub u v =
     (if val128 v \<le> val128 u then Ok (u128_of_nat (val128 u - val128 v))
      else Error U128_ErrUnderflow)"
proof -
  obtain s c where 1: "Uint128_SubBorrow u v 0 = (s, c)" by fastforce
  note a = Uint128_SubBorrow_diff [OF 1]
  have c: "c = 0 \<or> c = 1" using a(2) by (simp add: unat_le1_cases)
  show ?thesis
  proof (cases "c = 0")
    case True
    then have "val128 s = val128 u - val128 v" "val128 v \<le> val128 u" using a(1) by simp_all
    then show ?thesis
      using True by (simp add: Uint128_Sub_SubBorrow 1 u128_eqI)
  next
    case False
    then have "c = 1" using c by simp
    then have "\<not> val128 v \<le> val128 u" using a(1) val128_lt [of s] by simp
    then show ?thesis using False by (simp add: Uint128_Sub_SubBorrow 1)
  qed
qed

lemma Uint128_SubWrap_eq:
  "Uint128_SubWrap u v = u128_of_nat (val128 u + 2 ^ 128 - val128 v)"
proof -
  obtain s c where 1: "Uint128_SubBorrow u v 0 = (s, c)" by fastforce
  note a = Uint128_SubBorrow_diff [OF 1]
  have w: "Uint128_SubWrap u v = s"
    using 1 by (simp add: Uint128_SubWrap_def Uint128_SubBorrow_def split: prod.splits)
  have c: "c = 0 \<or> c = 1" using a(2) by (simp add: unat_le1_cases)
  have "val128 u + 2 ^ 128 - val128 v = val128 s + 2 ^ 128 * (1 - unat c)"
    using a(1) c val128_lt [of v] by auto
  from mod_uniq [OF this [symmetric]]
  have "val128 s = (val128 u + 2 ^ 128 - val128 v) mod 2 ^ 128"
    using val128_lt [of s] by simp
  then show ?thesis unfolding w by (metis u128_eqI u128_of_nat_mod)
qed

lemma Uint128_Sub64_Sub: "Uint128_Sub64 u v = Uint128_Sub u (NewFromUint64 v)"
  by (simp add: Uint128_Sub64_def Uint128_Sub_def NewFromUint64_def New_def)

lemma Uint128_SubWrap64_SubWrap: "Uint128_SubWrap64 u v = Uint128_SubWrap u (NewFromUint64 v)"
  by (simp add: Uint128_SubWrap64_def Uint128_SubWrap_def NewFromUint64_def New_def
      bits_Sub64_def split: prod.splits)

lemma w128_Lsh: "w128 (Uint128_Lsh u n) = push_bit n (w128 u)"
  unfolding w128_def Uint128_Lsh_def
  apply (rule bit_word_eqI)
  apply (auto simp: bit_simps dest: bit_imp_le_length)
  apply (simp_all add: add.commute)
  done

lemma w128_Rsh: "w128 (Uint128_Rsh u n) = drop_bit n (w128 u)"
  unfolding w128_def Uint128_Rsh_def
  apply (rule bit_word_eqI)
  apply (auto simp: bit_simps dest: bit_imp_le_length)
  apply (simp_all add: add.commute)
  done

lemma unat_ucast_64_128: "unat (ucast (x :: uint64) :: 128 word) = unat x"
  using unat_lt64 [of x]
  by (simp add: unsigned_ucast_eq take_bit_nat_eq_self)

lemma unat_w128: "unat (w128 u) = val128 u"
proof -
  have a: "unat (ucast (hi u) :: 128 word) = unat (hi u)" "unat (ucast (lo u) :: 128 word) = unat (lo u)"
    by (simp_all add: unat_ucast_64_128)
  have b: "unat (push_bit 64 (ucast (hi u) :: 128 word)) = unat (hi u) * 2 ^ 64"
    using unat_lt64 [of "hi u"]
    by (simp only: unsigned_push_bit_eq a) (simp add: push_bit_eq_mult take_bit_nat_eq_self)
  have "unat (w128 u) = (unat (hi u) * 2 ^ 64 + unat (lo u)) mod 2 ^ 128"
  proof -
    have "unat (w128 u) = (unat (push_bit 64 (ucast (hi u) :: 128 word)) + unat (ucast (lo u) :: 128 word)) mod 2 ^ 128"
      unfolding w128_def word_cat_eq by (subst unat_word_ariths(1)) simp
    then show ?thesis unfolding a b .
  qed
  then show ?thesis
    using val128_lt [of u] by (simp add: val128_def)
qed

lemma val128_Lsh: "val128 (Uint128_Lsh u n) = (val128 u * 2 ^ n) mod 2 ^ 128"
proof -
  have "val128 (Uint128_Lsh u n) = unat (push_bit n (w128 u))"
    by (simp add: unat_w128 [symmetric] w128_Lsh)
  also have "\<dots> = (val128 u * 2 ^ n) mod 2 ^ 128"
    by (simp only: unsigned_push_bit_eq unat_w128) (simp add: push_bit_eq_mult take_bit_eq_mod)
  finally show ?thesis .
qed

lemma val128_Rsh: "val128 (Uint128_Rsh u n) = val128 u div 2 ^ n"
proof -
  have "val128 (Uint128_Rsh u n) = unat (drop_bit n (w128 u))"
    by (simp add: unat_w128 [symmetric] w128_Rsh)
  also have "\<dots> = val128 u div 2 ^ n"
    by (simp only: unat_drop_bit_eq unat_w128) (simp add: drop_bit_eq_div)
  finally show ?thesis .
qed

lemma unat_of_nat64: "n < 18446744073709551616 \<Longrightarrow> unat (of_nat n :: uint64) = n"
  by (simp add: unat_of_nat)

lemma Uint128_Mul64_eq:
  "Uint128_Mul64 u v =
     (if val128 u * unat v < 2 ^ 128 then Ok (u128_of_nat (val128 u * unat v))
      else Error U128_ErrOverflow)"
proof -
  obtain h l where 1: "bits_Mul64 (lo u) v = (h, l)" by fastforce
  obtain p0 p1 where 2: "bits_Mul64 (hi u) v = (p0, p1)" by fastforce
  obtain h' c0 where 3: "bits_Add64 h p1 0 = (h', c0)" by fastforce
  note a = bits_Mul64_prod [OF 1]
  note b = bits_Mul64_prod [OF 2]
  note c = bits_Add64_sum [OF 3]
  have r: "Uint128_Mul64 u v =
      (if p0 \<noteq> 0 \<or> c0 \<noteq> 0 then Error U128_ErrOverflow else Ok \<lparr>lo = l, hi = h'\<rparr>)"
    by (simp add: Uint128_Mul64_def 1 2 3)
  have "val128 u * unat v = unat (hi u) * unat v * 2 ^ 64 + unat (lo u) * unat v"
    by (simp add: val128_def algebra_simps)
  then have e: "val128 u * unat v =
      unat l + 2 ^ 64 * unat h' + 2 ^ 128 * (unat c0 + unat p0)"
    using a b c(1) by simp
  show ?thesis
  proof (cases "p0 \<noteq> 0 \<or> c0 \<noteq> 0")
    case True
    then have "unat c0 \<noteq> 0 \<or> unat p0 \<noteq> 0"
      by (auto simp: unat_eq_zero)
    then have "\<not> val128 u * unat v < 2 ^ 128" using e by auto
    then show ?thesis using True r by simp
  next
    case False
    then have "val128 \<lparr>lo = l, hi = h'\<rparr> = val128 u * unat v" using e by simp
    then show ?thesis
      using False r val128_lt [of "\<lparr>lo = l, hi = h'\<rparr>"] by (simp add: u128_eqI)
  qed
qed

lemma val128_less_iff:
  "val128 u < val128 v \<longleftrightarrow> hi u < hi v \<or> (hi u = hi v \<and> lo u < lo v)"
  using unat_lt64 [of "lo u"] unat_lt64 [of "lo v"]
  unfolding val128_def word_less_nat_alt word_unat_eq_iff by auto

lemma val128_eq_iff: "val128 u = val128 v \<longleftrightarrow> u = v"
  using val128_inj by auto

lemma Uint128_Cmp_eq:
  "Uint128_Cmp u v = (if val128 u = val128 v then 0 else if val128 u < val128 v then - 1 else 1)"
  by (simp add: Uint128_Cmp_def val128_less_iff val128_eq_iff)

lemma Uint128_Lt_iff: "Uint128_Lt u v \<longleftrightarrow> val128 u < val128 v"
  by (simp add: Uint128_Lt_def val128_less_iff)

lemma Uint128_Gt_iff: "Uint128_Gt u v \<longleftrightarrow> val128 v < val128 u"
  by (auto simp add: Uint128_Gt_def val128_less_iff)

lemma Uint128_Lte_iff: "Uint128_Lte u v \<longleftrightarrow> val128 u \<le> val128 v"
  unfolding le_less val128_less_iff val128_eq_iff Uint128_Lte_def
  by (cases u; cases v; auto)

lemma Uint128_Gte_iff: "Uint128_Gte u v \<longleftrightarrow> val128 v \<le> val128 u"
  unfolding le_less val128_less_iff val128_eq_iff Uint128_Gte_def
  by (cases u; cases v; auto)

lemma Uint128_IsZero_iff: "Uint128_IsZero u \<longleftrightarrow> val128 u = 0"
  by (cases u) (auto simp: Uint128_IsZero_def val128_def unat_eq_zero)

lemma bits_Div64_eq:
  assumes "y \<noteq> 0" "h < y"
  shows "bits_Div64 h l y = Ok (of_nat ((unat h * 2 ^ 64 + unat l) div unat y),
                               of_nat ((unat h * 2 ^ 64 + unat l) mod unat y))"
  using assms by (simp add: bits_Div64_def not_le)

lemma div64_bound:
  assumes "h < (y::nat)" "l < 2 ^ 64"
  shows "(h * 2 ^ 64 + l) div y < 2 ^ 64"
proof -
  have "h * 2 ^ 64 + l < (h + 1) * 2 ^ 64" using assms(2) by simp
  also have "\<dots> \<le> y * 2 ^ 64" using assms(1) by (intro mult_le_mono1) simp
  finally show ?thesis
    using assms(1) by (simp add: less_mult_imp_div_less mult.commute)
qed

lemma Uint128_QuoRem64_eq:
  "Uint128_QuoRem64 u v =
     (if v = 0 then Panic DivideError
      else Ok (u128_of_nat (val128 u div unat v), of_nat (val128 u mod unat v)))"
proof (cases "v = 0")
  case True
  then show ?thesis by (simp add: Uint128_QuoRem64_def bits_Div64_def)
next
  case False
  then have v0: "0 < unat v" by (simp add: unat_gt_0)
  show ?thesis
  proof (cases "hi u < v")
    case True
    then have hv: "unat (hi u) < unat v" by (simp add: word_less_nat_alt)
    let ?q = "(unat (hi u) * 2 ^ 64 + unat (lo u)) div unat v"
    have qb: "?q < 2 ^ 64" using div64_bound [OF hv] unat_lt64 [of "lo u"] by simp
    have "val128 \<lparr>lo = of_nat ?q, hi = 0\<rparr> = val128 u div unat v"
      using qb by (simp add: val128_def unat_of_nat64)
    then have "\<lparr>lo = of_nat ?q, hi = 0\<rparr> = u128_of_nat (val128 u div unat v)"
      by (rule u128_eqI)
    then show ?thesis
      using False True
      by (simp add: Uint128_QuoRem64_def bits_Div64_eq) (simp add: val128_def)
  next
    case nlt: False
    define qh where "qh = unat (hi u) div unat v"
    define r1 where "r1 = unat (hi u) mod unat v"
    define ql where "ql = (r1 * 2 ^ 64 + unat (lo u)) div unat v"
    define r where "r = (r1 * 2 ^ 64 + unat (lo u)) mod unat v"
    have r1: "r1 < unat v" using v0 by (simp add: r1_def)
    have r1b: "r1 < 18446744073709551616" using r1 unat_lt64 [of v] by simp
    have ur1: "unat (of_nat r1 :: uint64) = r1"
      using r1b by (simp add: unat_of_nat64)
    have r1w: "(of_nat r1 :: uint64) < v"
      using r1 by (simp add: word_less_nat_alt ur1)
    have qhb: "qh < 2 ^ 64" unfolding qh_def
      by (rule le_less_trans [OF div_le_dividend]) (use unat_lt64 [of "hi u"] in simp)
    have qlb: "ql < 2 ^ 64"
      unfolding ql_def using div64_bound [OF r1] unat_lt64 [of "lo u"] by simp
    have d1: "bits_Div64 0 (hi u) v = Ok (of_nat qh, of_nat r1)"
      using False by (simp add: bits_Div64_def word_gt_0 qh_def r1_def)
    have d2: "bits_Div64 (of_nat r1) (lo u) v = Ok (of_nat ql, of_nat r)"
      using False r1w by (simp add: bits_Div64_eq ur1 ql_def r_def)
    have hq: "unat (hi u) = qh * unat v + r1" by (simp add: qh_def r1_def)
    have split: "val128 u = (qh * 2 ^ 64) * unat v + (r1 * 2 ^ 64 + unat (lo u))"
      unfolding val128_def hq by (simp add: algebra_simps)
    have dv: "val128 u div unat v = qh * 2 ^ 64 + ql"
      using v0 unfolding ql_def by (subst split) simp
    have md: "val128 u mod unat v = r"
      unfolding r_def by (subst split) simp
    have "val128 \<lparr>lo = of_nat ql, hi = of_nat qh\<rparr> = val128 u div unat v"
      using qlb qhb unfolding dv by (simp add: val128_def unat_of_nat64)
    then have "\<lparr>lo = of_nat ql, hi = of_nat qh\<rparr> = u128_of_nat (val128 u div unat v)"
      by (rule u128_eqI)
    then show ?thesis
      using False nlt by (simp add: Uint128_QuoRem64_def d1 d2 md)
  qed
qed

lemma bitlen_less: "n < 2 ^ bitlen n"
proof (induction n rule: bitlen.induct)
  case (1 n)
  show ?case
  proof (cases "n = 0")
    case True then show ?thesis by (simp add: bitlen.simps)
  next
    case False
    then have "n div 2 < 2 ^ bitlen (n div 2)" using 1 by simp
    then have "n < 2 * 2 ^ bitlen (n div 2)" by linarith
    then show ?thesis using False by (simp add: bitlen.simps [of n])
  qed
qed

lemma bitlen_ge: "n \<noteq> 0 \<Longrightarrow> 2 ^ (bitlen n - 1) \<le> n"
proof (induction n rule: bitlen.induct)
  case (1 n)
  show ?case
  proof (cases "n div 2 = 0")
    case True
    then have "n = 1" using "1.prems" by linarith
    then show ?thesis by (simp add: bitlen.simps)
  next
    case False
    then have "2 ^ (bitlen (n div 2) - 1) \<le> n div 2" using 1 by simp
    moreover have "bitlen (n div 2) \<noteq> 0" using False by (simp add: bitlen.simps [of "n div 2"])
    ultimately have "2 ^ bitlen (n div 2) \<le> 2 * (n div 2)"
      by (cases "bitlen (n div 2)") auto
    then have "2 ^ bitlen (n div 2) \<le> n" by linarith
    then show ?thesis using "1.prems" by (simp add: bitlen.simps [of n])
  qed
qed

lemma bitlen_le: "n < 2 ^ k \<Longrightarrow> bitlen n \<le> k"
proof (rule ccontr)
  assume a: "n < 2 ^ k" "\<not> bitlen n \<le> k"
  have n0: "n \<noteq> 0"
  proof
    assume "n = 0"
    then have "bitlen n = 0" by (simp add: bitlen.simps)
    with a(2) show False by simp
  qed
  have "k \<le> bitlen n - 1" using a(2) by simp
  then have "(2::nat) ^ k \<le> 2 ^ (bitlen n - 1)" by (rule power_increasing) simp
  from this bitlen_ge [OF n0] a(1) show False by linarith
qed

lemma bitlen_pos: "n \<noteq> 0 \<Longrightarrow> 0 < bitlen n"
  by (simp add: bitlen.simps [of n])

lemma LeadingZeros64_bounds:
  assumes "x \<noteq> 0"
  shows "bits_LeadingZeros64 x \<le> 63"
    and "2 ^ (63 - bits_LeadingZeros64 x) \<le> unat x"
    and "unat x < 2 ^ (64 - bits_LeadingZeros64 x)"
proof -
  have n0: "unat x \<noteq> 0" using assms by (simp add: unat_eq_zero)
  have le: "bitlen (unat x) \<le> 64" using unat_lt64 [of x] by (intro bitlen_le) simp
  have pos: "0 < bitlen (unat x)" using n0 by (rule bitlen_pos)
  have e: "64 - bits_LeadingZeros64 x = bitlen (unat x)"
    using le by (simp add: bits_LeadingZeros64_def bits_Len64_def)
  have e2: "63 - bits_LeadingZeros64 x = bitlen (unat x) - 1"
    using le pos by (simp add: bits_LeadingZeros64_def bits_Len64_def)
  show "bits_LeadingZeros64 x \<le> 63"
    using pos by (simp add: bits_LeadingZeros64_def bits_Len64_def)
  show "2 ^ (63 - bits_LeadingZeros64 x) \<le> unat x"
    unfolding e2 using n0 by (rule bitlen_ge)
  show "unat x < 2 ^ (64 - bits_LeadingZeros64 x)"
    unfolding e by (rule bitlen_less)
qed

lemma trial_quotient_nat:
  fixes U V a b :: nat
  assumes ab: "a * b = 2 ^ 63"
    and V1: "2 ^ 127 \<le> V * a" and V2: "V * a < 2 ^ 128" and U: "U < 2 ^ 128"
  defines "h \<equiv> V * a div 2 ^ 64"
  defines "t \<equiv> U div 2 div h div b"
  shows "U div V \<le> t" and "t \<le> U div V + 1" and "2 ^ 63 \<le> h" and "h < 2 ^ 64"
proof -
  have a0: "0 < a" and b0: "0 < b" using ab by (auto intro: Nat.gr0I)
  have p64: "(2::nat) ^ 64 = 2 * a * b" using ab by simp
  have h1: "h * 2 ^ 64 \<le> V * a" unfolding h_def by simp
  have h2: "V * a < (h + 1) * 2 ^ 64"
    unfolding h_def using div_mult_mod_eq [of "V * a" "2 ^ 64"]
    by (metis Suc_eq_plus1 dividend_less_div_times mult.commute zero_less_numeral zero_less_power
        add.commute mult_Suc)
  show hlo: "2 ^ 63 \<le> h"
  proof -
    have "2 ^ 127 div 2 ^ 64 \<le> V * a div (2 ^ 64 :: nat)" using V1 by (rule div_le_mono)
    then show ?thesis unfolding h_def by simp
  qed
  show "h < 2 ^ 64"
    unfolding h_def using V2 by (simp add: less_mult_imp_div_less)
  define D where "D = 2 * b * h"
  have D0: "0 < D" using hlo b0 unfolding D_def by simp
  have t: "t = U div D"
    unfolding t_def D_def by (simp add: div_mult2_eq [symmetric] mult.assoc mult.commute mult.left_commute)
  have "D * a = h * 2 ^ 64" unfolding D_def p64 by (simp add: algebra_simps)
  then have "D * a \<le> V * a" using h1 by simp
  then have DV: "D \<le> V" using a0 by simp
  have "V * a < (D + 2 * b) * a"
    using h2 unfolding D_def p64 by (simp add: algebra_simps)
  then have VD: "V < D + 2 * b" using a0 by simp
  show "U div V \<le> t" unfolding t using D0 DV by (rule div_le_mono2)
  define q where "q = U div V"
  have V0: "0 < V" using D0 DV by simp
  have Uq: "U < (q + 1) * V"
    unfolding q_def using dividend_less_times_div [OF V0, of U] by (simp add: algebra_simps)
  have qV: "q * V \<le> U" unfolding q_def by simp
  have q2a: "q < 2 * a"
  proof (rule ccontr)
    assume "\<not> q < 2 * a"
    then have "2 * a \<le> q" by simp
    then have "2 * a * V \<le> q * V" by (rule mult_le_mono1)
    moreover have "2 * a * V = 2 * (V * a)" by simp
    ultimately have "2 * (V * a) \<le> U" using qV by linarith
    then show False using V1 U by simp
  qed
  have bb: "2 * b \<le> b * b + 1"
  proof -
    have "(b - 1) * (b - 1) + 2 * b = b * b + 1"
      using b0 by (cases b) (simp_all add: algebra_simps)
    then show ?thesis by linarith
  qed
  have "(q + 1) * (2 * b - 1) \<le> 2 * a * (2 * b - 1)"
    using q2a by (intro mult_le_mono1) simp
  also have "\<dots> \<le> 2 * a * (b * b)"
    using bb by (intro mult_le_mono2) simp
  also have "\<dots> = 2 * b * (a * b)" by (simp add: algebra_simps)
  also have "\<dots> \<le> 2 * b * h" using hlo unfolding ab by (intro mult_le_mono2)
  finally have extra: "(q + 1) * (2 * b - 1) \<le> D" unfolding D_def .
  have "V \<le> D + (2 * b - 1)" using VD by simp
  then have "(q + 1) * V \<le> (q + 1) * (D + (2 * b - 1))" by (rule mult_le_mono2)
  also have "\<dots> = (q + 1) * D + (q + 1) * (2 * b - 1)" by (simp add: algebra_simps)
  also have "\<dots> \<le> (q + 1) * D + D" using extra by simp
  finally have "U < (q + 2) * D" using Uq by (simp add: algebra_simps)
  then have "U div D < q + 2" using D0 by (simp add: less_mult_imp_div_less)
  then show "t \<le> U div V + 1" unfolding t q_def by simp
qed

lemma unat_hi: "unat (hi u) = val128 u div 2 ^ 64"
  using unat_lt64 [of "lo u"] by (simp add: val128_def)

lemma unat_lo: "unat (lo u) = val128 u mod 2 ^ 64"
  using unat_lt64 [of "lo u"] by (simp add: val128_def)

lemma hi_lo_val: "unat (hi u) * 2 ^ 64 + unat (lo u) = val128 u"
  by (simp add: val128_def)

lemma trialQuotient_ok:
  assumes hv: "hi v \<noteq> 0"
  shows "\<exists>tq. trialQuotient u v = Ok tq \<and> unat tq \<le> val128 u div val128 v
            \<and> val128 u div val128 v \<le> unat tq + 1"
proof -
  define n where "n = bits_LeadingZeros64 (hi v)"
  define a :: nat where "a = 2 ^ n"
  define b :: nat where "b = 2 ^ (63 - n)"
  define V where "V = val128 v"
  define U where "U = val128 u"
  note lz = LeadingZeros64_bounds [OF hv, folded n_def]
  have ab: "a * b = 2 ^ 63"
    unfolding a_def b_def using lz(1) by (simp add: power_add [symmetric])
  have a2: "a * (2 * b) = 2 ^ 64" using ab by simp
  have b64: "2 * b = 2 ^ (64 - n)"
    unfolding b_def using lz(1) by (simp add: Suc_diff_le power_Suc [symmetric] del: power_Suc)
  have V1: "2 ^ 127 \<le> V * a"
  proof -
    have "b * 2 ^ 64 \<le> unat (hi v) * 2 ^ 64" using lz(2) unfolding b_def by simp
    also have "\<dots> \<le> V" unfolding V_def val128_def by simp
    finally have "b * 2 ^ 64 * a \<le> V * a" by (rule mult_le_mono1)
    moreover have "b * 2 ^ 64 * a = (a * b) * 2 ^ 64" by simp
    ultimately have "(a * b) * 2 ^ 64 \<le> V * a" by linarith
    then show ?thesis unfolding ab by simp
  qed
  have V2: "V * a < 2 ^ 128"
  proof -
    have "unat (hi v) + 1 \<le> 2 * b" using lz(3) unfolding b64 by simp
    then have "(unat (hi v) + 1) * 2 ^ 64 \<le> 2 * b * 2 ^ 64" by (rule mult_le_mono1)
    moreover have "V < (unat (hi v) + 1) * 2 ^ 64"
      unfolding V_def val128_def using unat_lt64 [of "lo v"] by simp
    ultimately have "V < 2 * b * 2 ^ 64" by linarith
    moreover have "0 < a" unfolding a_def by simp
    ultimately have "V * a < 2 * b * 2 ^ 64 * a" by simp
    moreover have "2 * b * 2 ^ 64 * a = (a * b) * 2 ^ 65" by simp
    ultimately have "V * a < (a * b) * 2 ^ 65" by linarith
    then show ?thesis unfolding ab by simp
  qed
  have Ult: "U < 2 ^ 128" unfolding U_def using val128_lt [of u] by simp
  define h where "h = V * a div 2 ^ 64"
  define t where "t = U div 2 div h div b"
  note tq = trial_quotient_nat [OF ab V1 V2 Ult, folded h_def t_def]
  have v1: "val128 (Uint128_Lsh v n) = V * a"
    using V2 by (simp add: val128_Lsh V_def a_def)
  have hv1: "unat (hi (Uint128_Lsh v n)) = h"
    by (simp add: unat_hi v1 h_def)
  have u1: "val128 (Uint128_Rsh u 1) = U div 2"
    by (simp add: val128_Rsh U_def)
  have hu1: "unat (hi (Uint128_Rsh u 1)) < 2 ^ 63"
    unfolding unat_hi u1 using Ult by simp
  have lt: "hi (Uint128_Rsh u 1) < hi (Uint128_Lsh v n)"
    using hu1 tq(3) by (simp add: word_less_nat_alt hv1)
  have ne: "hi (Uint128_Lsh v n) \<noteq> 0"
    using tq(3) hv1 by (auto simp: unat_eq_zero [symmetric] simp del: unat_eq_zero)
  define t0 where "t0 = U div 2 div h"
  have t0b: "t0 < 2 ^ 64"
  proof -
    have "U div 2 < 2 ^ 63 * 2 ^ 64" using Ult by simp
    also have "\<dots> \<le> h * 2 ^ 64" using tq(3) by simp
    finally show ?thesis unfolding t0_def
      using tq(3) by (simp add: less_mult_imp_div_less)
  qed
  have d: "bits_Div64 (hi (Uint128_Rsh u 1)) (lo (Uint128_Rsh u 1)) (hi (Uint128_Lsh v n))
      = Ok (of_nat t0, of_nat (U div 2 mod h))"
    unfolding bits_Div64_eq [OF ne lt] hi_lo_val u1 hv1 t0_def by simp
  have ut0: "unat (of_nat t0 :: uint64) = t0" using t0b by (simp add: unat_of_nat64)
  define tq1 :: uint64 where "tq1 = drop_bit (63 - n) (of_nat t0)"
  have utq1: "unat tq1 = t"
    unfolding tq1_def
    by (simp only: unat_drop_bit_eq ut0) (simp add: drop_bit_eq_div t_def t0_def b_def)
  define tqf where "tqf = (if tq1 \<noteq> 0 then tq1 - 1 else tq1)"
  have utqf: "unat tqf = t - 1"
    unfolding tqf_def using utq1 by (auto simp: unat_minus_one unat_eq_zero)
  have "trialQuotient u v = Ok tqf"
    unfolding trialQuotient_def n_def [symmetric] Let_def d
    by (simp add: tq1_def tqf_def)
  moreover have "unat tqf \<le> U div V" "U div V \<le> unat tqf + 1"
    using tq(1,2) unfolding utqf by simp_all
  ultimately show ?thesis unfolding U_def V_def by blast
qed

lemma Uint128_QuoRem_eq:
  assumes "v \<noteq> Uint128_Zero"
  shows "Uint128_QuoRem u v =
     Ok (u128_of_nat (val128 u div val128 v), u128_of_nat (val128 u mod val128 v), None)"
proof (cases "hi v = 0")
  case True
  then have lv: "lo v \<noteq> 0" using assms by (cases v) (auto simp: Uint128_Zero_def)
  have V: "val128 v = unat (lo v)" using True by (simp add: val128_def)
  have "NewFromUint64 (of_nat (val128 u mod unat (lo v))) = u128_of_nat (val128 u mod unat (lo v))"
  proof (rule u128_eqI)
    have "0 < unat (lo v)" using lv by (simp add: unat_gt_0)
    then have "val128 u mod unat (lo v) < unat (lo v)" by simp
    then have "val128 u mod unat (lo v) < 18446744073709551616"
      using unat_lt64 [of "lo v"] by linarith
    then show "val128 (NewFromUint64 (word_of_nat (val128 u mod unat (lo v)))) =
        val128 u mod unat (lo v)"
      by (simp add: unat_of_nat64)
  qed
  then show ?thesis
    using True lv by (simp add: Uint128_QuoRem_def Uint128_QuoRem64_eq V)
next
  case False
  define U where "U = val128 u"
  define V where "V = val128 v"
  have Ult: "U < 2 ^ 128" unfolding U_def using val128_lt [of u] by simp
  have V0: "0 < V" using False unfolding V_def val128_def by (simp add: unat_gt_0)
  obtain tq where tq: "trialQuotient u v = Ok tq" "unat tq \<le> U div V" "U div V \<le> unat tq + 1"
    using trialQuotient_ok [OF False, of u] unfolding U_def V_def by blast
  define T where "T = unat tq"
  have TV: "V * T \<le> U"
  proof -
    have "V * T \<le> V * (U div V)" using tq(2) unfolding T_def by (rule mult_le_mono2)
    also have "\<dots> \<le> U" by simp
    finally show ?thesis .
  qed
  have m: "Uint128_Mul64 v tq = Ok (u128_of_nat (V * T))"
    using TV Ult by (simp add: Uint128_Mul64_eq V_def [symmetric] T_def [symmetric])
  have vq: "val128 (u128_of_nat (V * T)) = V * T"
    using TV Ult by (simp add: val128_u128_of_nat)
  have s: "Uint128_Sub u (u128_of_nat (V * T)) = Ok (u128_of_nat (U - V * T))"
    using TV by (simp add: Uint128_Sub_eq vq U_def [symmetric])
  have r: "val128 (u128_of_nat (U - V * T)) = U - V * T"
    using Ult by (simp add: val128_u128_of_nat)
  have qv: "val128 (NewFromUint64 tq) = T" by (simp add: T_def)
  show ?thesis
  proof (cases "V \<le> U - V * T")
    case True
    have c: "Uint128_Cmp (u128_of_nat (U - V * T)) v \<ge> 0"
      using True by (simp add: Uint128_Cmp_eq r V_def [symmetric])
    have "U div V \<noteq> T"
    proof
      assume e: "U div V = T"
      have "V * T + U mod V = U" unfolding e [symmetric] by simp
      moreover have "U mod V < V" using V0 by simp
      ultimately show False using True by linarith
    qed
    then have q: "U div V = T + 1" using tq(2,3) unfolding T_def by linarith
    have Tb: "T + 1 < 2 ^ 128" using unat_lt64 [of tq] unfolding T_def by simp
    have a: "Uint128_Add64 (NewFromUint64 tq) 1 = Ok (u128_of_nat (T + 1))"
      using Tb by (simp add: Uint128_Add64_Add Uint128_Add_eq T_def)
    have s2: "Uint128_Sub (u128_of_nat (U - V * T)) v = Ok (u128_of_nat (U - V * T - V))"
      using True by (simp add: Uint128_Sub_eq r V_def [symmetric])
    have "U - V * T - V = U mod V"
    proof -
      have "V * (U div V) + U mod V = U" by simp
      then have "V * T + V + U mod V = U" unfolding q by (simp add: algebra_simps)
      then show ?thesis by linarith
    qed
    then show ?thesis
      using False c
      by (simp add: Uint128_QuoRem_def tq(1) m s a s2 q U_def [symmetric] V_def [symmetric])
  next
    case nle: False
    have c: "\<not> Uint128_Cmp (u128_of_nat (U - V * T)) v \<ge> 0"
      using nle by (simp add: Uint128_Cmp_eq r V_def [symmetric])
    have q: "U div V = T"
    proof -
      have "U < V * (T + 1)" using nle TV by (simp add: algebra_simps)
      then have "U div V < T + 1" using V0 by (simp add: less_mult_imp_div_less mult.commute)
      then show ?thesis using tq(2) unfolding T_def by simp
    qed
    have "V * T + U mod V = U" unfolding q [symmetric] by simp
    then have "U - V * T = U mod V" by linarith
    moreover have "NewFromUint64 tq = u128_of_nat T"
      by (rule u128_eqI) (simp add: T_def)
    ultimately show ?thesis
      using False c
      by (simp add: Uint128_QuoRem_def tq(1) m s q U_def [symmetric] V_def [symmetric])
  qed
qed


lemma Uint128_MulFull_eq:
  assumes cross: "unat (hi u) * unat (lo v) + unat (lo u) * unat (hi v) < 2 ^ 128"
  shows "Uint128_MulFull u v =
     (u128_of_nat (val128 u * val128 v div 2 ^ 128), u128_of_nat (val128 u * val128 v))"
proof -
  define a where "a = unat (lo u)"
  define b where "b = unat (hi u)"
  define c where "c = unat (lo v)"
  define d where "d = unat (hi v)"
  obtain h0 l0 where m0: "bits_Mul64 (lo u) (lo v) = (h0, l0)" by fastforce
  obtain h1 l1 where m1: "bits_Mul64 (hi u) (lo v) = (h1, l1)" by fastforce
  obtain h2 l2 where m2: "bits_Mul64 (lo u) (hi v) = (h2, l2)" by fastforce
  obtain h3 l3 where m3: "bits_Mul64 (hi u) (hi v) = (h3, l3)" by fastforce
  obtain mid1 carry1 where a1: "bits_Add64 l1 l2 0 = (mid1, carry1)" by fastforce
  obtain mid2 carry2 where a2: "bits_Add64 h1 h2 carry1 = (mid2, carry2)" by fastforce
  obtain r1 cA where a3: "bits_Add64 mid1 h0 0 = (r1, cA)" by fastforce
  obtain r2p1 cB where a4: "bits_Add64 mid2 l3 0 = (r2p1, cB)" by fastforce
  obtain r2p2 cC where a5: "bits_Add64 r2p1 cA 0 = (r2p2, cC)" by fastforce
  obtain r2f cD where a6: "bits_Add64 r2p2 carry2 0 = (r2f, cD)" by fastforce
  note p0 = bits_Mul64_prod [OF m0, folded a_def c_def]
  note p1 = bits_Mul64_prod [OF m1, folded b_def c_def]
  note p2 = bits_Mul64_prod [OF m2, folded a_def d_def]
  note p3 = bits_Mul64_prod [OF m3, folded b_def d_def]
  have z: "unat (0 :: uint64) \<le> 1" by simp
  note s1 = bits_Add64_sum [OF a1 z]
  note s2 = bits_Add64_sum [OF a2 s1(2)]
  note s3 = bits_Add64_sum [OF a3 z]
  note s4 = bits_Add64_sum [OF a4 z]
  note s5 = bits_Add64_sum [OF a5 z]
  note s6 = bits_Add64_sum [OF a6 z]
  have res: "Uint128_MulFull u v =
      (\<lparr>lo = r2f, hi = h3 + cB + cC + cD\<rparr>, \<lparr>lo = l0, hi = r1\<rparr>)"
    by (simp add: Uint128_MulFull_def m0 m1 m2 m3 a1 a2 a3 a4 a5 a6)
  have c2: "unat carry2 = 0"
  proof -
    have "b * c + a * d = unat mid1 + 2 ^ 64 * unat mid2 + 2 ^ 128 * unat carry2"
      using p1 p2 s1(1) s2(1) by simp
    then show ?thesis using cross unfolding a_def b_def c_def d_def by simp
  qed
  define P where "P = val128 u * val128 v"
  have Pe: "P = a * c + 2 ^ 64 * (b * c + a * d) + 2 ^ 128 * (b * d)"
    unfolding P_def val128_def a_def b_def c_def d_def by (simp add: algebra_simps)
  define R3 where "R3 = unat h3 + unat cB + unat cC + unat cD"
  have tot: "P = unat l0 + 2 ^ 64 * unat r1 + 2 ^ 128 * unat r2f + 2 ^ 192 * R3"
    unfolding Pe R3_def using p0 p1 p2 p3 s1(1) s2(1) s3(1) s4(1) s5(1) s6(1) c2 by simp
  have Plt: "P < 2 ^ 256"
  proof -
    have "P < 2 ^ 128 * 2 ^ 128"
      unfolding P_def using val128_lt [of u] val128_lt [of v]
      by (intro mult_strict_mono) simp_all
    then show ?thesis by simp
  qed
  have R3lt: "R3 < 2 ^ 64" using tot Plt by simp
  have r3: "unat (h3 + cB + cC + cD) = R3"
    using R3lt unfolding R3_def by (simp add: unat_word_ariths mod_simps)
  define L where "L = unat l0 + 2 ^ 64 * unat r1"
  define K where "K = unat r2f + 2 ^ 64 * R3"
  have PL: "L + 2 ^ 128 * K = P" using tot by (simp add: L_def K_def)
  have Llt: "L < 2 ^ 128"
    unfolding L_def using unat_lt64 [of l0] unat_lt64 [of r1] by simp
  have lo: "val128 \<lparr>lo = l0, hi = r1\<rparr> = P mod 2 ^ 128"
    using mod_uniq [OF PL Llt] by (simp add: L_def)
  have "P div 2 ^ 128 = K"
    unfolding PL [symmetric] using Llt by simp
  then have hi: "val128 \<lparr>lo = r2f, hi = h3 + cB + cC + cD\<rparr> = P div 2 ^ 128"
    by (simp add: r3 K_def)
  have "\<lparr>lo = l0, hi = r1\<rparr> = u128_of_nat P"
    using lo by (metis u128_eqI u128_of_nat_mod)
  moreover have "\<lparr>lo = r2f, hi = h3 + cB + cC + cD\<rparr> = u128_of_nat (P div 2 ^ 128)"
    using hi by (rule u128_eqI)
  ultimately show ?thesis unfolding res P_def by simp
qed

section \<open>Facts about \<open>uint256\<close>\<close>

lemma w128_Or: "w128 (Uint128_Or a b) = w128 a OR w128 b"
  unfolding w128_def Uint128_Or_def
  by (rule bit_word_eqI) (auto simp: bit_simps)

lemma w128_Zero [simp]: "w128 Uint128_Zero = 0"
  unfolding w128_def Uint128_Zero_def by simp

lemma and_1_drop_bit: "(drop_bit k (x :: uint64) AND 1 \<noteq> 0) \<longleftrightarrow> bit x k"
  by (simp add: and_one_eq bit_iff_odd_drop_bit odd_iff_mod_2_eq_one)

lemma Uint128_Bit_iff: "Uint128_Bit u i \<noteq> 0 \<longleftrightarrow> bit (w128 u) i"
  unfolding Uint128_Bit_def w128_def
  by (auto simp: and_1_drop_bit bit_simps dest: bit_imp_le_length)

lemma w128_SetBit: "w128 (Uint128_SetBit u i) = (if i < 128 then set_bit i (w128 u) else w128 u)"
  unfolding w128_def Uint128_SetBit_def
  by (rule bit_word_eqI) (auto simp: bit_simps)

lemma unat_w256: "unat (w256 u) = val256 u"
proof -
  have a: "unat (ucast (w128 (hi256 u)) :: 256 word) = val128 (hi256 u)"
          "unat (ucast (w128 (lo256 u)) :: 256 word) = val128 (lo256 u)"
    using val128_lt [of "hi256 u"] val128_lt [of "lo256 u"]
    by (simp_all add: unsigned_ucast_eq take_bit_nat_eq_self unat_w128)
  have b: "unat (push_bit 128 (ucast (w128 (hi256 u)) :: 256 word)) = val128 (hi256 u) * 2 ^ 128"
    using val128_lt [of "hi256 u"]
    by (simp only: unsigned_push_bit_eq a) (simp add: push_bit_eq_mult take_bit_nat_eq_self)
  have "unat (w256 u) = (val128 (hi256 u) * 2 ^ 128 + val128 (lo256 u)) mod 2 ^ 256"
  proof -
    have "unat (w256 u) = (unat (push_bit 128 (ucast (w128 (hi256 u)) :: 256 word))
        + unat (ucast (w128 (lo256 u)) :: 256 word)) mod 2 ^ 256"
      unfolding w256_def word_cat_eq by (subst unat_word_ariths(1)) simp
    then show ?thesis unfolding a b .
  qed
  then show ?thesis
    using val128_lt [of "hi256 u"] val128_lt [of "lo256 u"] by (simp add: val256_def)
qed

lemma w256_Lsh: "w256 (Uint256_Lsh u n) = push_bit n (w256 u)"
  unfolding w256_def Uint256_Lsh_def Uint256_Zero_def Let_def
  apply (rule bit_word_eqI)
  apply (auto simp: bit_simps w128_Or w128_Lsh w128_Rsh dest: bit_imp_le_length)
  apply (simp_all add: add.commute)
  done

lemma Uint256_Bit_iff: "Uint256_Bit u i \<noteq> 0 \<longleftrightarrow> bit (w256 u) i"
  unfolding Uint256_Bit_def w256_def
  by (auto simp: Uint128_Bit_iff bit_simps dest: bit_imp_le_length)

lemma w256_SetBit: "w256 (Uint256_SetBit u i) = (if i < 256 then set_bit i (w256 u) else w256 u)"
  unfolding w256_def Uint256_SetBit_def
  by (rule bit_word_eqI) (auto simp: bit_simps w128_SetBit)

lemma val256_lt: "val256 u < 2 ^ 256"
  using unsigned_less [of "w256 u", where 'a = nat] by (simp add: unat_w256)

lemma val256_mk [simp]: "val256 \<lparr>lo256 = l, hi256 = h\<rparr> = val128 h * 2 ^ 128 + val128 l"
  by (simp add: val256_def)

lemma val128_Zero [simp]: "val128 Uint128_Zero = 0"
  by (simp add: Uint128_Zero_def val128_def)

lemma u128_of_nat_0 [simp]: "u128_of_nat 0 = Uint128_Zero"
  by (simp add: u128_of_nat_def Uint128_Zero_def)

lemma val256_Zero [simp]: "val256 Uint256_Zero = 0"
  by (simp add: Uint256_Zero_def)

lemma val256_NewFromUint128 [simp]: "val256 (Uint256_NewFromUint128 v) = val128 v"
  by (simp add: Uint256_NewFromUint128_def)

lemma val256_NewFromUint64 [simp]: "val256 (Uint256_NewFromUint64 v) = unat v"
  by (simp add: Uint256_NewFromUint64_def)

lemma val256_New [simp]: "val256 (Uint256_New l h) = val128 h * 2 ^ 128 + val128 l"
  by (simp add: Uint256_New_def)

lemma u256_of_nat_val256 [simp]: "u256_of_nat (val256 u) = u"
proof -
  have "val256 u div 2 ^ 128 = val128 (hi256 u)"
    using val128_lt [of "lo256 u"] by (simp add: val256_def)
  moreover have "u128_of_nat (val256 u) = lo256 u"
  proof -
    have "u128_of_nat (val256 u) = u128_of_nat (val256 u mod 2 ^ 128)"
      by (rule u128_of_nat_mod [symmetric])
    also have "val256 u mod 2 ^ 128 = val128 (lo256 u)"
      using val128_lt [of "lo256 u"] by (simp add: val256_def)
    finally show ?thesis by simp
  qed
  ultimately show ?thesis by (simp add: u256_of_nat_def)
qed

lemma u256_eqI: "val256 u = n \<Longrightarrow> u = u256_of_nat n"
  by (metis u256_of_nat_val256)

lemma val256_u256_of_nat: "n < 2 ^ 256 \<Longrightarrow> val256 (u256_of_nat n) = n"
proof -
  assume n: "n < 2 ^ 256"
  have "n div 2 ^ 128 < 2 ^ 128" using n by (simp add: less_mult_imp_div_less)
  then have "val256 (u256_of_nat n) = (n div 2 ^ 128) * 2 ^ 128 + n mod 2 ^ 128"
    by (simp add: u256_of_nat_def val128_u128_of_nat)
  then show ?thesis by simp
qed

lemma lo256_u256_of_nat: "lo256 (u256_of_nat n) = u128_of_nat n"
  by (simp add: u256_of_nat_def)

lemma hi256_u256_of_nat: "hi256 (u256_of_nat n) = u128_of_nat (n div 2 ^ 128)"
  by (simp add: u256_of_nat_def)

lemma Uint256_IsZero_iff: "Uint256_IsZero u \<longleftrightarrow> val256 u = 0"
  by (auto simp: Uint256_IsZero_def Uint128_IsZero_iff val256_def)

lemma val256_less_iff:
  "val256 u < val256 v \<longleftrightarrow>
     val128 (hi256 u) < val128 (hi256 v)
     \<or> (val128 (hi256 u) = val128 (hi256 v) \<and> val128 (lo256 u) < val128 (lo256 v))"
  using val128_lt [of "lo256 u"] val128_lt [of "lo256 v"]
  unfolding val256_def by auto

lemma Uint256_Lt_iff: "Uint256_Lt u v \<longleftrightarrow> val256 u < val256 v"
  by (simp add: Uint256_Lt_def Uint128_Lt_iff Uint128_Equals_def val256_less_iff val128_eq_iff)

lemma Uint256_Gte_iff: "Uint256_Gte u v \<longleftrightarrow> val256 v \<le> val256 u"
proof -
  have "Uint256_Gte u v \<longleftrightarrow> \<not> val256 u < val256 v"
    unfolding val256_less_iff Uint256_Gte_def Uint128_Gt_iff Uint128_Gte_iff Uint128_Equals_def
      val128_eq_iff [symmetric]
    by auto
  then show ?thesis by auto
qed

lemma Uint256_Cmp128_eq:
  "Uint256_Cmp128 u v =
     (if val256 u = val128 v then 0 else if val256 u < val128 v then - 1 else 1)"
  using val128_lt [of v] val128_lt [of "lo256 u"]
  by (auto simp: Uint256_Cmp128_def Uint128_IsZero_iff Uint128_Cmp_eq val256_def)

lemma Uint256_Sub_eq:
  "Uint256_Sub u v =
     (if val256 v \<le> val256 u then Ok (u256_of_nat (val256 u - val256 v))
      else Error U256_ErrUnderflow)"
proof -
  obtain l b0 where 1: "Uint128_SubBorrow (lo256 u) (lo256 v) 0 = (l, b0)" by fastforce
  obtain h b1 where 2: "Uint128_SubBorrow (hi256 u) (hi256 v) b0 = (h, b1)" by fastforce
  have z: "unat (0 :: uint64) \<le> 1" by simp
  note a = Uint128_SubBorrow_diff [OF 1 z]
  note b = Uint128_SubBorrow_diff [OF 2 a(2)]
  have r: "Uint256_Sub u v =
      (if b1 \<noteq> 0 then Error U256_ErrUnderflow else Ok \<lparr>lo256 = l, hi256 = h\<rparr>)"
    by (simp add: Uint256_Sub_def 1 2)
  have e: "val256 \<lparr>lo256 = l, hi256 = h\<rparr> + val256 v = val256 u + 2 ^ 256 * unat b1"
    using a(1) b(1) by (simp add: val256_def)
  have c: "b1 = 0 \<or> b1 = 1" using b(2) by (simp add: unat_le1_cases)
  show ?thesis
  proof (cases "b1 = 0")
    case True
    then have "val256 \<lparr>lo256 = l, hi256 = h\<rparr> = val256 u - val256 v" "val256 v \<le> val256 u"
      using e by simp_all
    then show ?thesis using True r by (simp add: u256_eqI)
  next
    case False
    then have "b1 = 1" using c by simp
    then have "\<not> val256 v \<le> val256 u"
      using e val256_lt [of "\<lparr>lo256 = l, hi256 = h\<rparr>"] by simp
    then show ?thesis using False r by simp
  qed
qed

lemma val256_Lsh1: "val256 u < 2 ^ 255 \<Longrightarrow> val256 (Uint256_Lsh u 1) = 2 * val256 u"
proof -
  assume a: "val256 u < 2 ^ 255"
  have "val256 (Uint256_Lsh u 1) = unat (push_bit 1 (w256 u))"
    by (simp add: unat_w256 [symmetric] w256_Lsh)
  also have "\<dots> = (val256 u * 2) mod 2 ^ 256"
    by (simp only: unsigned_push_bit_eq unat_w256) (simp add: push_bit_eq_mult take_bit_eq_mod)
  finally show ?thesis using a by simp
qed

lemma bit_w256_val: "bit (w256 u) i \<longleftrightarrow> odd (val256 u div 2 ^ i)"
proof -
  have "bit (w256 u) i = bit (unat (w256 u)) i" by (simp add: bit_unsigned_iff)
  also have "\<dots> = odd (unat (w256 u) div 2 ^ i)" by (rule bit_iff_odd)
  finally show ?thesis by (simp add: unat_w256)
qed

lemma Uint256_Bit_val: "Uint256_Bit u i \<noteq> 0 \<longleftrightarrow> odd (val256 u div 2 ^ i)"
  by (simp add: Uint256_Bit_iff bit_w256_val)

lemma val256_SetBit:
  assumes "i < 256" "even (val256 u div 2 ^ i)"
  shows "val256 (Uint256_SetBit u i) = val256 u + 2 ^ i"
proof -
  have nb: "\<not> bit (w256 u) i"
    using assms(2) by (simp add: bit_w256_val)
  have "val256 (Uint256_SetBit u i) = unat (set_bit i (w256 u))"
    using assms(1) by (simp add: unat_w256 [symmetric] w256_SetBit)
  also have "\<dots> = set_bit i (unat (w256 u))"
    using assms(1) by (intro bit_eqI) (auto simp: bit_simps)
  also have "\<dots> = unat (w256 u) + 2 ^ i"
    using nb by (simp add: set_bit_eq bit_unsigned_iff)
  finally show ?thesis by (simp add: unat_w256)
qed

lemma div_uniq: "s + M * c = (t::nat) \<Longrightarrow> s < M \<Longrightarrow> t div M = c"
proof -
  assume a: "s + M * c = t" "s < M"
  then have "0 < M" by simp
  then have "(s + M * c) div M = s div M + c" by simp
  then show ?thesis using a by simp
qed

lemma quoRemLoop_correct:
  assumes V0: "0 < val256 v" and V: "val256 v \<le> 2 ^ 255"
    and k: "k \<le> 256"
    and r: "val256 r = (val256 u div 2 ^ k) mod val256 v"
    and q: "val256 q = (val256 u div 2 ^ k) div val256 v * 2 ^ k"
  shows "quoRemLoop k u v (q, r) =
     (u256_of_nat (val256 u div val256 v), u256_of_nat (val256 u mod val256 v))"
  using k r q
proof (induction k arbitrary: q r)
  case 0
  then show ?case by (simp add: u256_eqI)
next
  case (Suc i)
  define U where "U = val256 u"
  define W where "W = val256 v"
  define A where "A = U div 2 ^ Suc i"
  define Q where "Q = A div W"
  define R where "R = A mod W"
  define \<beta> :: nat where "\<beta> = (if odd (U div 2 ^ i) then 1 else 0)"
  have W0: "0 < W" using V0 by (simp add: W_def)
  have Rlt: "R < W" unfolding R_def using W0 by simp
  have AQR: "A = Q * W + R" unfolding Q_def R_def by simp
  have B: "U div 2 ^ i = 2 * A + \<beta>"
  proof -
    have "U div 2 ^ Suc i = U div 2 ^ i div 2" by (simp only: power_Suc2 div_mult2_eq)
    then show ?thesis unfolding A_def \<beta>_def by (auto elim: oddE)
  qed
  have rv: "val256 r = R" using Suc.prems(2) by (simp add: R_def A_def U_def W_def)
  have qv: "val256 q = Q * 2 ^ Suc i" using Suc.prems(3) by (simp add: Q_def A_def U_def W_def)
  have r255: "val256 r < 2 ^ 255" using Rlt V rv by (simp add: W_def)
  define r1 where "r1 = Uint256_Lsh r 1"
  have r1v: "val256 r1 = 2 * R" unfolding r1_def using val256_Lsh1 [OF r255] rv by simp
  define r2 where "r2 = (if Uint256_Bit u i \<noteq> 0 then Uint256_SetBit r1 0 else r1)"
  have r2v: "val256 r2 = 2 * R + \<beta>"
  proof (cases "Uint256_Bit u i \<noteq> 0")
    case True
    then have "\<beta> = 1" by (simp add: Uint256_Bit_val \<beta>_def U_def)
    moreover have "val256 (Uint256_SetBit r1 0) = val256 r1 + 2 ^ 0"
      by (rule val256_SetBit) (simp_all add: r1v)
    ultimately show ?thesis using True by (simp add: r2_def r1v)
  next
    case False
    then have "\<beta> = 0" by (simp add: Uint256_Bit_val \<beta>_def U_def)
    then show ?thesis using False by (simp add: r2_def r1v)
  qed
  have step: "quoRemLoop (Suc i) u v (q, r) =
      (if Uint256_Gte r2 v
       then quoRemLoop i u v (Uint256_SetBit q i,
              (case Uint256_Sub r2 v of Ok d \<Rightarrow> d | Error _ \<Rightarrow> Uint256_Zero
               | Panic _ \<Rightarrow> Uint256_Zero))
       else quoRemLoop i u v (q, r2))"
    by (simp add: r1_def r2_def Let_def)
  have i: "i \<le> 256" "i < 256" using Suc.prems(1) by simp_all
  have tot: "U div 2 ^ i = (2 * Q) * W + (2 * R + \<beta>)"
    unfolding B AQR by (simp add: algebra_simps)
  have \<beta>le: "\<beta> \<le> 1" by (simp add: \<beta>_def)
  show ?case
  proof (cases "W \<le> 2 * R + \<beta>")
    case True
    have g: "Uint256_Gte r2 v" using True by (simp add: Uint256_Gte_iff r2v W_def [symmetric])
    have s: "Uint256_Sub r2 v = Ok (u256_of_nat (2 * R + \<beta> - W))"
      using True by (simp add: Uint256_Sub_eq r2v W_def [symmetric])
    have lt: "2 * R + \<beta> - W < W" using Rlt \<beta>le True by linarith
    have tot': "(2 * R + \<beta> - W) + W * (2 * Q + 1) = U div 2 ^ i"
      using tot True by (simp add: algebra_simps)
    have md: "(U div 2 ^ i) mod W = 2 * R + \<beta> - W"
      using mod_uniq [OF tot' lt] .
    have dv: "(U div 2 ^ i) div W = 2 * Q + 1"
      using div_uniq [OF tot' lt] .
    have rb: "2 * R + \<beta> - W < 2 ^ 256" using lt V unfolding W_def by simp
    have r': "val256 (u256_of_nat (2 * R + \<beta> - W)) = (val256 u div 2 ^ i) mod val256 v"
      using md rb by (simp add: val256_u256_of_nat U_def W_def)
    have ev: "even (val256 q div 2 ^ i)" unfolding qv by simp
    have q': "val256 (Uint256_SetBit q i) = (val256 u div 2 ^ i) div val256 v * 2 ^ i"
      using val256_SetBit [OF i(2) ev] dv
      by (simp add: qv U_def W_def algebra_simps)
    show ?thesis
      unfolding step using g s Suc.IH [OF i(1) r' q'] by simp
  next
    case False
    have g: "\<not> Uint256_Gte r2 v" using False by (simp add: Uint256_Gte_iff r2v W_def [symmetric])
    have lt: "2 * R + \<beta> < W" using False by simp
    have tot': "(2 * R + \<beta>) + W * (2 * Q) = U div 2 ^ i"
      using tot by (simp add: algebra_simps)
    have md: "(U div 2 ^ i) mod W = 2 * R + \<beta>"
      using mod_uniq [OF tot' lt] .
    have dv: "(U div 2 ^ i) div W = 2 * Q"
      using div_uniq [OF tot' lt] .
    have r': "val256 r2 = (val256 u div 2 ^ i) mod val256 v"
      using md by (simp add: r2v U_def W_def)
    have q': "val256 q = (val256 u div 2 ^ i) div val256 v * 2 ^ i"
      using dv by (simp add: qv U_def W_def)
    show ?thesis
      unfolding step using g Suc.IH [OF i(1) r' q'] by simp
  qed
qed

lemma quoRemCore_eq:
  assumes "0 < val256 v" "val256 v \<le> 2 ^ 255"
  shows "quoRemCore u v =
     (u256_of_nat (val256 u div val256 v), u256_of_nat (val256 u mod val256 v))"
proof (cases "Uint256_Lt u v")
  case True
  then have "val256 u < val256 v" by (simp add: Uint256_Lt_iff)
  then show ?thesis using True by (simp add: quoRemCore_def u256_eqI)
next
  case False
  have d: "val256 u div 2 ^ 256 = 0" using val256_lt [of u] by simp
  have "quoRemLoop 256 u v (Uint256_Zero, Uint256_Zero) =
     (u256_of_nat (val256 u div val256 v), u256_of_nat (val256 u mod val256 v))"
    by (rule quoRemLoop_correct [OF assms]) (simp_all only: d, simp_all)
  then show ?thesis using False by (simp add: quoRemCore_def)
qed

lemma Uint256_QuoRem_eq:
  assumes "val256 v \<le> 2 ^ 255"
  shows "Uint256_QuoRem u v =
     (if val256 v = 0 then Error U256_ErrDivideByZero
      else Ok (u256_of_nat (val256 u div val256 v), u256_of_nat (val256 u mod val256 v)))"
  using assms by (simp add: Uint256_QuoRem_def Uint256_IsZero_iff quoRemCore_eq)

section \<open>Facts about the table of powers of ten and \<open>bint\<close>\<close>

lemma Uint128_Big_eq: "Uint128_Big u = int (val128 u)"
proof -
  have d: "push_bit 64 (uint (hi u)) AND uint (lo u) = 0"
    by (rule bit_eqI) (auto simp: bit_simps dest: bit_imp_le_length)
  have "Uint128_Big u = push_bit 64 (uint (hi u)) + uint (lo u)"
    unfolding Uint128_Big_def
    by (simp add: disjunctive_xor_eq_or [OF d] disjunctive_add_eq_or [OF d])
  then show ?thesis
    by (simp add: val128_def push_bit_eq_mult)
qed

lemma pow10_map: "pow10 = map (\<lambda>i. u128_of_nat (10 ^ i)) [0..<39]"
  by (simp add: pow10_def upt_rec u128_of_nat_def New_def NewFromUint64_def)

lemma pow10_nth: "i < 39 \<Longrightarrow> pow10 ! i = u128_of_nat (10 ^ i)"
  unfolding pow10_map by (simp del: upt_Suc)

lemma pow10_at_eq: "pow10_at i = (if i < 39 then Ok (u128_of_nat (10 ^ i)) else Panic IndexOutOfRange)"
  by (simp add: pow10_at_def pow10_nth)

lemma pow10_lt: "i < 39 \<Longrightarrow> (10::nat) ^ i < 2 ^ 128"
proof -
  assume "i < 39"
  then have "(10::nat) ^ i \<le> 10 ^ 38" by (intro power_increasing) simp_all
  then show ?thesis by simp
qed

lemma val128_pow10: "i < 39 \<Longrightarrow> val128 (u128_of_nat (10 ^ i)) = 10 ^ i"
  using pow10_lt [of i] by (simp add: val128_u128_of_nat)

lemma GetBig_U128: "bint_GetBig (bintFromU128 u) = int (val128 u)"
  by (simp add: bint_GetBig_def bintFromU128_def Uint128_Big_eq)

lemma GetBig_Big: "bint_GetBig (bintFromBigInt b) = b"
  by (simp add: bint_GetBig_def bintFromBigInt_def)


section \<open>The Newton iteration of \<open>sqrtU128\<close>\<close>

lemma Uint128_AddCarry_zero:
  "Uint128_AddCarry u v 0 =
     (u128_of_nat (val128 u + val128 v), if val128 u + val128 v < 2 ^ 128 then 0 else 1)"
proof -
  obtain s c where 1: "Uint128_AddCarry u v 0 = (s, c)" by fastforce
  have z: "unat (0 :: uint64) \<le> 1" by simp
  note a = Uint128_AddCarry_sum [OF 1 z]
  have c: "c = 0 \<or> c = 1" using a(2) by (simp add: unat_le1_cases)
  have "val128 s = (val128 u + val128 v) mod 2 ^ 128"
    using mod_uniq [OF a(1)] val128_lt [of s] by simp
  then have s: "s = u128_of_nat (val128 u + val128 v)"
    by (metis u128_eqI u128_of_nat_mod)
  have "c = (if val128 u + val128 v < 2 ^ 128 then 0 else 1)"
    using a(1) c val128_lt [of s] by auto
  then show ?thesis using 1 s by simp
qed

lemma sqrtBody_step:
  fixes f :: "Uint256 \<Rightarrow> Uint128 \<Rightarrow> Uint128 result option"
  assumes x0: "0 < val128 x"
    and y: "val256 s div val128 x < 2 ^ 128"
    and sum: "val128 x + val256 s div val128 x < 2 ^ 128"
    and ne: "(val128 x + val256 s div val128 x) div 2 \<noteq> val128 x"
  shows "(if Uint128_IsZero x
          then Some (Error (ErrOther ''sqrt iteration led to zero guess''))
          else
            (case Uint256_QuoRem s (Uint256_NewFromUint128 x) of
               Error e \<Rightarrow> Some (Error e)
             | Panic pn \<Rightarrow> Some (Panic pn)
             | Ok (y_u256, _) \<Rightarrow>
                 if \<not> Uint128_IsZero (Uint256_High y_u256) then Some (Error errOverflow)
                 else
                   (let y_u128 = Uint256_Low y_u256;
                        (x1_u128_sum, carry) = Uint128_AddCarry x y_u128 0
                    in if carry \<noteq> 0 then Some (Error errOverflow)
                       else
                         (let x1_u128 = Uint128_Rsh x1_u128_sum 1
                          in if Uint128_Cmp x1_u128 x = 0 then Some (Ok x1_u128)
                             else f s x1_u128))))
         = f s (u128_of_nat ((val128 x + val256 s div val128 x) div 2))"
proof -
  define Y where "Y = val256 s div val128 x"
  have nz: "\<not> Uint128_IsZero x" using x0 by (simp add: Uint128_IsZero_iff)
  have v: "val256 (Uint256_NewFromUint128 x) \<le> 2 ^ 255"
    using val128_lt [of x] by simp
  have q: "Uint256_QuoRem s (Uint256_NewFromUint128 x) =
      Ok (u256_of_nat Y, u256_of_nat (val256 s mod val128 x))"
    using x0 by (simp add: Uint256_QuoRem_eq [OF v] Y_def)
  have hz: "Uint128_IsZero (Uint256_High (u256_of_nat Y))"
    using y by (simp add: Uint256_High_def hi256_u256_of_nat Y_def Uint128_IsZero_iff)
  have yv: "val128 (Uint256_Low (u256_of_nat Y)) = Y"
    using y by (simp add: Uint256_Low_def lo256_u256_of_nat Y_def val128_u128_of_nat)
  have ac: "Uint128_AddCarry x (Uint256_Low (u256_of_nat Y)) 0 = (u128_of_nat (val128 x + Y), 0)"
    unfolding Uint128_AddCarry_zero yv using sum by (simp add: Y_def)
  have sv: "val128 (u128_of_nat (val128 x + Y)) = val128 x + Y"
    using sum by (simp add: val128_u128_of_nat Y_def)
  have rs: "Uint128_Rsh (u128_of_nat (val128 x + Y)) 1 = u128_of_nat ((val128 x + Y) div 2)"
    by (rule u128_eqI) (simp add: val128_Rsh sv)
  have x1v: "val128 (u128_of_nat ((val128 x + Y) div 2)) = (val128 x + Y) div 2"
    using sum by (simp add: val128_u128_of_nat Y_def)
  have cmp: "Uint128_Cmp (u128_of_nat ((val128 x + Y) div 2)) x \<noteq> 0"
    unfolding Uint128_Cmp_eq x1v using ne by (simp add: Y_def)
  show ?thesis
    unfolding q Y_def [symmetric]
    using nz hz cmp by (simp add: ac rs [simplified] Let_def)
qed

lemma sqrtLoop_step:
  assumes "0 < val128 x" "val256 s div val128 x < 2 ^ 128"
    "val128 x + val256 s div val128 x < 2 ^ 128"
    "(val128 x + val256 s div val128 x) div 2 \<noteq> val128 x"
  shows "sqrtLoop s x = sqrtLoop s (u128_of_nat ((val128 x + val256 s div val128 x) div 2))"
  by (subst sqrtLoop.simps) (rule sqrtBody_step [OF assms])

lemma sqrtLoop_cycle:
  assumes closed: "\<And>a. a \<in> S \<Longrightarrow>
      0 < a \<and> N div a < 2 ^ 128 \<and> a + N div a < 2 ^ 128
      \<and> (a + N div a) div 2 \<noteq> a \<and> (a + N div a) div 2 \<in> S"
    and N: "val256 s = N" and x: "val128 x \<in> S"
  shows "sqrtLoop s x = None"
proof (rule ccontr)
  assume "sqrtLoop s x \<noteq> None"
  then obtain y where y: "sqrtLoop s x = Some y" by auto
  have "\<not> (s = s \<and> val128 x \<in> S)"
  proof (rule sqrtLoop.raw_induct [where P = "\<lambda>a b y. \<not> (a = s \<and> val128 b \<in> S)", OF _ y])
    fix f :: "Uint256 \<Rightarrow> Uint128 \<Rightarrow> Uint128 result option" and a b z
    assume IH: "\<And>a b y. f a b = Some y \<Longrightarrow> \<not> (a = s \<and> val128 b \<in> S)"
      and body: "(if Uint128_IsZero b
          then Some (Error (ErrOther ''sqrt iteration led to zero guess''))
          else
            (case Uint256_QuoRem a (Uint256_NewFromUint128 b) of
               Ok (y_u256, _) \<Rightarrow>
                 if \<not> Uint128_IsZero (Uint256_High y_u256) then Some (Error errOverflow)
                 else
                   (let y_u128 = Uint256_Low y_u256;
                        (x1_u128_sum, carry) = Uint128_AddCarry b y_u128 0
                    in if carry \<noteq> 0 then Some (Error errOverflow)
                       else
                         (let x1_u128 = Uint128_Rsh x1_u128_sum 1
                          in if Uint128_Cmp x1_u128 b = 0 then Some (Ok x1_u128)
                             else f a x1_u128))
             | Error e \<Rightarrow> Some (Error e)
             | Panic pn \<Rightarrow> Some (Panic pn))) = Some z"
    show "\<not> (a = s \<and> val128 b \<in> S)"
    proof
      assume h: "a = s \<and> val128 b \<in> S"
      have as: "a = s" using h by simp
      note c = closed [of "val128 b", unfolded N [symmetric]]
      have c1: "0 < val128 b" "val256 s div val128 b < 2 ^ 128"
        "val128 b + val256 s div val128 b < 2 ^ 128"
        "(val128 b + val256 s div val128 b) div 2 \<noteq> val128 b"
        and c2: "(val128 b + val256 s div val128 b) div 2 \<in> S"
        using c h by simp_all
      have "f s (u128_of_nat ((val128 b + val256 s div val128 b) div 2)) = Some z"
        using body unfolding as sqrtBody_step [OF c1] .
      from IH [OF this] have "val128 (u128_of_nat ((val128 b + val256 s div val128 b) div 2)) \<notin> S"
        by simp
      moreover have "val128 (u128_of_nat ((val128 b + val256 s div val128 b) div 2))
          = (val128 b + val256 s div val128 b) div 2"
        using c1(3) by (simp add: val128_u128_of_nat)
      ultimately show False using c2 by simp
    qed
  qed
  then show False using x by simp
qed

lemma bitlen_eqI:
  assumes "2 ^ (k - 1) \<le> n" "n < 2 ^ k" "0 < k"
  shows "bitlen n = k"
proof -
  have le: "bitlen n \<le> k" using assms(2) by (rule bitlen_le)
  have "(2::nat) ^ (k - 1) < 2 ^ bitlen n"
    using assms(1) bitlen_less [of n] by (rule le_less_trans)
  then have "k - 1 < bitlen n" by (simp only: power_strict_increasing_iff one_less_numeral_iff semiring_norm)
  then show ?thesis using le assms(3) by linarith
qed

lemma sqrtD_NewFromUint64: "Decimal_NewFromUint64 9999999999999999998 19 = Ok sqrtD"
  by (simp add: Decimal_NewFromUint64_def sqrtD_def defaultPrec_def newDecimal_def bint_IsZero_def
      bint_overflow_def bintFromU64_def bintFromU128_def NewFromUint64_def New_def Uint128_IsZero_def)

lemma sqrtD_mulfull:
  "Uint128_MulFull (NewFromUint64 9999999999999999998) (pow10 ! 19)
     = (Uint128_Zero, u128_of_nat 99999999999999999980000000000000000000)"
proof -
  have p: "pow10 ! 19 = u128_of_nat 10000000000000000000"
    using pow10_nth [of 19] by simp
  have v: "val128 (u128_of_nat 10000000000000000000) = 10000000000000000000"
    by (simp add: val128_u128_of_nat)
  have h: "hi (NewFromUint64 9999999999999999998) = 0" by (simp add: NewFromUint64_def New_def)
  have h2: "hi (u128_of_nat 10000000000000000000) = 0" by (simp add: u128_of_nat_def)
  show ?thesis
    unfolding p
    by (subst Uint128_MulFull_eq) (simp_all add: h h2 v u128_of_nat_0)
qed

lemma sqrtD_bitlen: "Uint128_BitLen (u128_of_nat 99999999999999999980000000000000000000) = 127"
proof -
  have h: "hi (u128_of_nat 99999999999999999980000000000000000000) = 5421010862427522168"
    by (simp add: u128_of_nat_def)
  have b: "bitlen 5421010862427522168 = 63" by (rule bitlen_eqI) simp_all
  show ?thesis by (simp add: Uint128_BitLen_def h bits_Len64_def b)
qed

lemma sqrtD_start:
  "sqrtStart sqrtD = Ok (Some (Uint256_New (u128_of_nat 99999999999999999980000000000000000000) Uint128_Zero,
      New 0 1))"
proof -
  have l: "Uint128_Lsh (New 1 0) 64 = New 0 1" by (simp add: Uint128_Lsh_def New_def)
  have z: "Uint128_IsZero Uint128_Zero" "Uint128_High Uint128_Zero = 0"
    by (simp_all add: Uint128_IsZero_def Uint128_Zero_def Uint128_High_def)
  show ?thesis
    by (simp add: sqrtStart_def sqrtD_def defaultPrec_def pow10_at_int_def and_then_def
        bintFromU64_def bintFromU128_def sqrtD_mulfull Uint256_High_def Uint256_New_def
        Uint256_BitLen_def z sqrtD_bitlen l)
qed


lemma sqrtD_loop:
  "sqrtLoop (Uint256_New (u128_of_nat 99999999999999999980000000000000000000) Uint128_Zero)
     (New 0 1) = None"
proof (rule sqrtLoop_cycle [where N = 99999999999999999980000000000000000000
      and S = "{18446744073709551616, 11933877468068536892, 10156691824241952094,
                10001208677402501737, 10000000073036225441, 10000000000000000265,
                9999999999999999999, 9999999999999999998}"])
  fix a :: nat
  assume "a \<in> {18446744073709551616, 11933877468068536892, 10156691824241952094,
                10001208677402501737, 10000000073036225441, 10000000000000000265,
                9999999999999999999, 9999999999999999998}"
  then consider "a = 18446744073709551616" | "a = 11933877468068536892"
    | "a = 10156691824241952094" | "a = 10001208677402501737" | "a = 10000000073036225441"
    | "a = 10000000000000000265" | "a = 9999999999999999999" | "a = 9999999999999999998"
    by blast
  then show "0 < a \<and> 99999999999999999980000000000000000000 div a < 2 ^ 128
      \<and> a + 99999999999999999980000000000000000000 div a < 2 ^ 128
      \<and> (a + 99999999999999999980000000000000000000 div a) div 2 \<noteq> a
      \<and> (a + 99999999999999999980000000000000000000 div a) div 2 \<in>
           {18446744073709551616, 11933877468068536892, 10156691824241952094,
                10001208677402501737, 10000000073036225441, 10000000000000000265,
                9999999999999999999, 9999999999999999998}"
    by cases simp_all
next
  show "val256 (Uint256_New (u128_of_nat 99999999999999999980000000000000000000) Uint128_Zero)
      = 99999999999999999980000000000000000000"
    by (simp add: val256_New val128_Zero val128_u128_of_nat)
next
  show "val128 (New 0 1) \<in> {18446744073709551616, 11933877468068536892, 10156691824241952094,
                10001208677402501737, 10000000073036225441, 10000000000000000265,
                9999999999999999999, 9999999999999999998}"
    by (simp add: New_def)
qed

lemma sqrtD_U128: "sqrtU128 sqrtD = None"
  by (simp add: sqrtU128_def sqrtD_start sqrtD_loop)

lemma One_eq: "One = \<lparr>coef = bintFromU64 1, neg = False, prec = 0\<rparr>"
  by (simp add: One_def newDecimal_def bint_IsZero_def bint_overflow_def bintFromU64_def
      bintFromU128_def NewFromUint64_def New_def Uint128_IsZero_def)

lemma sqrtD_Cmp_One: "Decimal_Cmp sqrtD One = Ok (- 1)"
proof -
  have p: "pow10_at 19 = Ok (u128_of_nat 10000000000000000000)"
    by (simp add: pow10_at_eq)
  have m: "Uint128_MulFull (NewFromUint64 1) (u128_of_nat 10000000000000000000)
      = (Uint128_Zero, u128_of_nat 10000000000000000000)"
    by (subst Uint128_MulFull_eq)
      (simp_all add: NewFromUint64_def New_def u128_of_nat_def Uint128_Zero_def)
  have c: "Uint256_Cmp128 (Uint256_New (u128_of_nat 10000000000000000000) Uint128_Zero)
      (NewFromUint64 9999999999999999998) = 1"
    by (simp add: Uint256_Cmp128_eq val256_New val128_Zero val128_u128_of_nat)
  show ?thesis
    by (simp add: Decimal_Cmp_def cmpDecSameSign_def tryCmpU128_def sqrtD_def One_eq
        bint_overflow_def bintFromU64_def bintFromU128_def and_then_def p m c)
qed

lemma sqrtD_Sqrt: "Decimal_Sqrt sqrtD = None"
proof -
  have a: "\<not> neg sqrtD" "\<not> bint_IsZero (coef sqrtD)" "\<not> bint_overflow (coef sqrtD)"
    by (simp_all add: sqrtD_def bint_IsZero_def bint_overflow_def bintFromU64_def
        bintFromU128_def NewFromUint64_def New_def Uint128_IsZero_def)
  show ?thesis
    unfolding Decimal_Sqrt_def by (simp add: a sqrtD_Cmp_One sqrtD_U128)
qed

section \<open>\<open>QuoRem\<close> on \<open>quoRemD\<close> and \<open>quoRemE\<close>\<close>

lemma pow10_0: "pow10_at 0 = Ok (New 1 0)" and pow10_1: "pow10_at (Suc 0) = Ok (New 10 0)"
  by (simp_all add: pow10_at_def pow10_def NewFromUint64_def)

lemma quoRemDE_mulfull: "Uint128_MulFull (New 0 64) (New 1 0) = (Uint128_Zero, New 0 64)"
  by (simp add: Uint128_MulFull_def New_def bits_Mul64_def bits_Add64_def Uint128_Zero_def)

lemma quoRemDE_mul:
  "Uint128_Mul (New 18446744073709551615 1844674407370955161) (New 10 0)
     = Ok (New 18446744073709551606 4)"
  by (simp add: Uint128_Mul_def New_def bits_Mul64_def bits_Add64_def)

lemma quoRemDE_quorem:
  "Uint256_QuoRem (Uint256_New (New 0 64) Uint128_Zero)
             (Uint256_NewFromUint128 (New 18446744073709551606 4))
      = Ok (Uint256_New (New 12 0) Uint128_Zero, Uint256_New (New 120 4) Uint128_Zero)"
proof -
  have v: "val128 (New 0 64) = 1180591620717411303424"
    "val128 (New 18446744073709551606 4) = 92233720368547758070"
    by (simp_all add: New_def)
  have r: "u256_of_nat 12 = Uint256_New (New 12 0) Uint128_Zero"
    "u256_of_nat 73786976294838206584 = Uint256_New (New 120 4) Uint128_Zero"
    by (simp_all add: u256_of_nat_def u128_of_nat_def New_def Uint256_New_def Uint128_Zero_def)
  show ?thesis
    by (subst Uint256_QuoRem_eq) (simp_all add: v r)
qed

lemma quoRemDE_try:
  "tryQuoRemU128 quoRemD quoRemE =
     Ok (\<lparr>coef = bintFromU128 (New 12 0), neg = False, prec = 0\<rparr>,
         \<lparr>coef = bintFromU128 (New 120 4), neg = False, prec = 1\<rparr>)"
proof -
  have nz: "\<not> Uint128_IsZero (New 18446744073709551606 4)" "Uint128_IsZero Uint128_Zero"
    by (simp_all add: Uint128_IsZero_def New_def Uint128_Zero_def)
  have z: "\<not> bint_IsZero (bintFromU128 (New 12 0))" "\<not> bint_IsZero (bintFromU128 (New 120 4))"
    by (simp_all add: bint_IsZero_def bint_overflow_def bintFromU128_def Uint128_IsZero_def New_def)
  have ov: "\<not> bint_overflow (coef quoRemD)" "\<not> bint_overflow (coef quoRemE)"
    by (simp_all add: quoRemD_def quoRemE_def bint_overflow_def bintFromU128_def)
  have sc: "(if prec quoRemD = prec quoRemE
           then Ok (prec quoRemD, Uint256_NewFromUint128 (u128 (coef quoRemD)), u128 (coef quoRemE))
           else
             (let factor = max (prec quoRemD) (prec quoRemE)
              in and_then (pow10_at (unat (factor - prec quoRemD))) (\<lambda>scaleByD.
                   let (hiProdD, loProdD) = Uint128_MulFull (u128 (coef quoRemD)) scaleByD;
                       dividend256 = Uint256_New loProdD hiProdD
                   in and_then (pow10_at (unat (factor - prec quoRemE))) (\<lambda>scaleByE.
                        and_then (Uint128_Mul (u128 (coef quoRemE)) scaleByE) (\<lambda>divisorU128.
                          Ok (factor, dividend256, divisorU128))))))
        = Ok (1, Uint256_New (New 0 64) Uint128_Zero, New 18446744073709551606 4)"
    by (simp add: quoRemD_def quoRemE_def bintFromU128_def and_then_def pow10_0 pow10_1
        quoRemDE_mulfull quoRemDE_mul)
  show ?thesis
    unfolding tryQuoRemU128_def sc
    apply (simp add: ov and_then_def nz quoRemDE_quorem)
    apply (simp add: Uint256_High_def Uint256_Low_def Uint256_New_def nz newDecimal_def z
        quoRemD_def quoRemE_def)
    done
qed


lemma quoRemD_NewFromHiLo: "NewFromHiLo False 64 0 1 = Ok quoRemD"
  by (simp add: NewFromHiLo_def quoRemD_def defaultPrec_def newDecimal_def bint_IsZero_def
      bint_overflow_def bintFromU128_def New_def Uint128_IsZero_def)

lemma quoRemE_NewFromHiLo:
  "NewFromHiLo False 1844674407370955161 18446744073709551615 0 = Ok quoRemE"
  by (simp add: NewFromHiLo_def quoRemE_def defaultPrec_def newDecimal_def bint_IsZero_def
      bint_overflow_def bintFromU128_def New_def Uint128_IsZero_def)

lemma quoRemE_nonzero: "\<not> bint_IsZero (coef quoRemE)"
  by (simp add: quoRemE_def bint_IsZero_def bint_overflow_def bintFromU128_def New_def
      Uint128_IsZero_def)

lemma quoRemDE_QuoRem:
  "Decimal_QuoRem quoRemD quoRemE =
     Ok (\<lparr>coef = bintFromU128 (New 12 0), neg = False, prec = 0\<rparr>,
         \<lparr>coef = bintFromU128 (New 120 4), neg = False, prec = 1\<rparr>)"
  by (simp add: Decimal_QuoRem_def quoRemE_nonzero quoRemDE_try)

lemma quoRemDE_values:
  "Decimal_value quoRemD = 1180591620717411303424 / 10"
  "Decimal_value quoRemE = 34028236692093846353716158372660641791"
  "Decimal_value \<lparr>coef = bintFromU128 (New 12 0), neg = False, prec = 0\<rparr> = 12"
  "Decimal_value \<lparr>coef = bintFromU128 (New 120 4), neg = False, prec = 1\<rparr>
     = 73786976294838206584 / 10"
  by (simp_all add: Decimal_value_def quoRemD_def quoRemE_def GetBig_U128 New_def)

lemma quoRemDE_quoRemBig:
  "quoRemBig quoRemD quoRemE =
     Ok (Zero, \<lparr>coef = bintFromBigInt 1180591620717411303424, neg = False, prec = 1\<rparr>)"
proof -
  have b: "Uint128_Big \<lparr>lo = 1, hi = 0\<rparr> = 1" "Uint128_Big \<lparr>lo = 10, hi = 0\<rparr> = 10"
    by (simp_all add: Uint128_Big_eq)
  have z: "bint_IsZero (bintFromBigInt 0)"
    "\<not> bint_IsZero (bintFromBigInt 1180591620717411303424)"
    by (simp_all add: bint_IsZero_def bint_overflow_def bintFromBigInt_def bint_GetBig_def)
  have q: "big_QuoRem 1180591620717411303424 340282366920938463537161583726606417910
      = Ok (0, 1180591620717411303424)"
    by (simp add: big_QuoRem_def)
  show ?thesis
    by (simp add: quoRemBig_def quoRemD_def quoRemE_def pow10_0 pow10_1 and_then_def b GetBig_U128
        New_def q newDecimal_def z)
qed

lemma Zero_value: "Decimal_value Zero = 0"
  by (simp add: Decimal_value_def Zero_def bint_GetBig_def Uint128_Big_eq)

section \<open>\<open>RoundBank\<close>\<close>

lemma pow10_19_lt: "k \<le> 19 \<Longrightarrow> (10::nat) ^ k < 18446744073709551616"
proof -
  assume "k \<le> 19"
  then have "(10::nat) ^ k \<le> 10 ^ 19" by (intro power_increasing) simp_all
  then show ?thesis by simp
qed

lemma pow10_low:
  assumes "k \<le> 19"
  shows "unat (Uint128_Low (u128_of_nat (10 ^ k))) = 10 ^ k"
proof -
  have "unat (of_nat (10 ^ k) :: uint64) = 10 ^ k"
    by (rule unat_of_nat64 [OF pow10_19_lt [OF assms]])
  then show ?thesis
    by (simp only: Uint128_Low_def u128_of_nat_def Uint128.select_convs)
qed

lemma Uint128_Big_of_nat: "n < 2 ^ 128 \<Longrightarrow> Uint128_Big (u128_of_nat n) = int n"
  by (simp add: Uint128_Big_eq val128_u128_of_nat)

lemma word64_odd_of_nat: "(of_nat n :: uint64) mod 2 = 1 \<longleftrightarrow> odd n"
  by (simp add: odd_iff_mod_2_eq_one [symmetric])

lemma even_pow10: "0 < k \<Longrightarrow> even ((10::nat) ^ k)"
  by simp

lemma roundBank_u128:
  assumes k: "0 < k" "k \<le> 19"
  shows "and_then (Uint128_QuoRem64 u (Uint128_Low (u128_of_nat (10 ^ k))))
        (\<lambda>(q, r).
           case (if Uint128_Low (u128_of_nat (10 ^ k)) div 2 < r
                    \<or> (Uint128_Low (u128_of_nat (10 ^ k)) div 2 = r \<and> Uint128_Low q mod 2 = 1)
                 then Uint128_Add64 q 1 else Ok q) of
             Ok q \<Rightarrow> Ok (newDecimal n (bintFromU128 q) p)
           | Error _ \<Rightarrow> fb
           | Panic pn \<Rightarrow> Panic pn)
       = Ok (newDecimal n (bintFromU128 (u128_of_nat (if 10 ^ k < 2 * (val128 u mod 10 ^ k)
                   \<or> (2 * (val128 u mod 10 ^ k) = 10 ^ k \<and> odd (val128 u div 10 ^ k))
                then val128 u div 10 ^ k + 1 else val128 u div 10 ^ k))) p)"
proof -
  define F :: nat where "F = 10 ^ k"
  define fl where "fl = Uint128_Low (u128_of_nat F)"
  define c where "c = val128 u"
  have F64: "F < 18446744073709551616" unfolding F_def by (rule pow10_19_lt [OF k(2)])
  have F10: "10 \<le> F" using k(1) unfolding F_def by (cases k) simp_all
  have Fe: "even F" using k(1) unfolding F_def by simp
  then obtain h where h: "F = 2 * h" by (elim evenE)
  have fl: "unat fl = F" unfolding fl_def F_def by (rule pow10_low [OF k(2)])
  have fl0: "fl \<noteq> 0" using fl F10 by (auto simp: unat_eq_zero [symmetric])
  have half: "unat (fl div 2) = h" by (simp add: unat_div fl h)
  have rlt: "c mod F < 18446744073709551616"
    using F64 F10 by (meson less_trans mod_less_divisor less_le_trans zero_less_numeral)
  have r: "unat (of_nat (c mod F) :: uint64) = c mod F" by (rule unat_of_nat64 [OF rlt])
  have clt: "c < 2 ^ 128" unfolding c_def using val128_lt [of u] by simp
  have qlt: "c div F + 1 < 2 ^ 128"
  proof -
    have "c div F \<le> c div 10" using F10 by (intro div_le_mono2) simp_all
    then show ?thesis using clt by simp
  qed
  then have qv: "val128 (u128_of_nat (c div F)) = c div F"
    by (simp add: val128_u128_of_nat)
  have qr: "Uint128_QuoRem64 u fl = Ok (u128_of_nat (c div F), of_nat (c mod F))"
    by (simp add: Uint128_QuoRem64_eq fl0 fl c_def)
  have lt: "fl div 2 < of_nat (c mod F) \<longleftrightarrow> F < 2 * (c mod F)"
    unfolding word_less_nat_alt half r using h by auto
  have eq: "fl div 2 = of_nat (c mod F) \<longleftrightarrow> 2 * (c mod F) = F"
    unfolding word_unat_eq_iff half r using h by auto
  have od: "Uint128_Low (u128_of_nat (c div F)) mod 2 = 1 \<longleftrightarrow> odd (c div F)"
    by (simp add: Uint128_Low_def u128_of_nat_def word64_odd_of_nat)
  have add: "Uint128_Add64 (u128_of_nat (c div F)) 1 = Ok (u128_of_nat (c div F + 1))"
    using qlt by (simp add: Uint128_Add64_Add Uint128_Add_eq qv)
  show ?thesis
    unfolding F_def [symmetric] fl_def [symmetric] c_def [symmetric] qr
    by (simp add: and_then_def lt eq od add)
qed

lemma big_QuoRem_nonneg:
  assumes "0 \<le> x" "0 < y"
  shows "big_QuoRem x y = Ok (x div y, x mod y)"
proof (cases "x = 0")
  case True
  then show ?thesis using assms by (simp add: big_QuoRem_def)
next
  case False
  then have "sgn x = 1" "\<bar>x\<bar> = x" "sgn y = 1" "\<bar>y\<bar> = y" using assms by simp_all
  then show ?thesis using assms by (simp add: big_QuoRem_def)
qed

lemma prec_diff:
  fixes p q :: uint8
  assumes "p < q" "q \<le> 19"
  shows "0 < unat (q - p)" "unat (q - p) \<le> 19" "unat (q - p) < 39"
proof -
  have "unat p < unat q" using assms(1) by (simp add: word_less_nat_alt)
  moreover have "unat q \<le> 19" using assms(2) by (simp add: word_le_nat_alt)
  moreover have "unat (q - p) = unat q - unat p"
    using assms(1) by (simp add: unat_sub less_imp_le)
  ultimately show "0 < unat (q - p)" "unat (q - p) \<le> 19" "unat (q - p) < 39" by simp_all
qed

lemma RoundBank_fast:
  assumes p: "p < prec d" "prec d \<le> 19" and ov: "\<not> bint_overflow (coef d)"
  shows "Decimal_RoundBank d p =
     Ok (newDecimal (neg d)
           (bintFromU128 (u128_of_nat
              (if 10 ^ unat (prec d - p) < 2 * (val128 (u128 (coef d)) mod 10 ^ unat (prec d - p))
                  \<or> (2 * (val128 (u128 (coef d)) mod 10 ^ unat (prec d - p)) = 10 ^ unat (prec d - p)
                      \<and> odd (val128 (u128 (coef d)) div 10 ^ unat (prec d - p)))
               then val128 (u128 (coef d)) div 10 ^ unat (prec d - p) + 1
               else val128 (u128 (coef d)) div 10 ^ unat (prec d - p)))) p)"
proof -
  define k where "k = unat (prec d - p)"
  note kk = prec_diff [OF p, folded k_def]
  have np: "\<not> prec d \<le> p" using p(1) by simp
  have pw: "pow10_at k = Ok (u128_of_nat (10 ^ k))" using kk by (simp add: pow10_at_eq)
  show ?thesis
    unfolding Decimal_RoundBank_def k_def [symmetric]
    using ov by (simp add: np pw and_then_def [of "Ok _"] Let_def roundBank_u128 [OF kk(1,2)])
qed

lemma RoundBank_big:
  assumes p: "p < prec d" "prec d \<le> 19" and ov: "bint_overflow (coef d)"
    and c0: "0 \<le> bint_GetBig (coef d)"
  shows "Decimal_RoundBank d p =
     Ok (newDecimal (neg d)
           (bintFromBigInt
              (if 10 ^ unat (prec d - p) < 2 * (bint_GetBig (coef d) mod 10 ^ unat (prec d - p))
                  \<or> (2 * (bint_GetBig (coef d) mod 10 ^ unat (prec d - p)) = 10 ^ unat (prec d - p)
                      \<and> odd (bint_GetBig (coef d) div 10 ^ unat (prec d - p)))
               then bint_GetBig (coef d) div 10 ^ unat (prec d - p) + 1
               else bint_GetBig (coef d) div 10 ^ unat (prec d - p))) p)"
proof -
  define k where "k = unat (prec d - p)"
  note kk = prec_diff [OF p, folded k_def]
  have np: "\<not> prec d \<le> p" using p(1) by simp
  have pw: "pow10_at k = Ok (u128_of_nat (10 ^ k))" using kk by (simp add: pow10_at_eq)
  have bigF: "Uint128_Big (u128_of_nat (10 ^ k)) = 10 ^ k"
    using pow10_lt [OF kk(3)] by (simp add: Uint128_Big_eq val128_u128_of_nat)
  have "unat (Uint128_Low (u128_of_nat (10 ^ k)) div 2) = 10 ^ k div 2"
    by (simp add: unat_div pow10_low [OF kk(2)])
  then have "uint (Uint128_Low (u128_of_nat (10 ^ k)) div 2) = int (10 ^ k div 2)"
    by (simp only: uint_nat)
  then have low: "uint (Uint128_Low (u128_of_nat (10 ^ k)) div 2) = 10 ^ k div 2"
    by (simp add: zdiv_int)
  have Fe: "even ((10::int) ^ k)" using kk(1) by simp
  then obtain h where h: "(10::int) ^ k = 2 * h" by (elim evenE)
  define c where "c = bint_GetBig (coef d)"
  have c0': "0 \<le> c" using c0 by (simp add: c_def)
  have qr: "big_QuoRem c (10 ^ k) = Ok (c div 10 ^ k, c mod 10 ^ k)"
    by (rule big_QuoRem_nonneg [OF c0']) simp
  have lt: "(10 ^ k div 2 < c mod 10 ^ k) = (10 ^ k < 2 * (c mod 10 ^ k))"
    unfolding h by auto
  have eq: "(c mod 10 ^ k = 10 ^ k div 2) = (2 * (c mod 10 ^ k) = 10 ^ k)"
    unfolding h by auto
  have od: "(c div 10 ^ k mod 2 = 1) = odd (c div 10 ^ k)"
    by (simp add: odd_iff_mod_2_eq_one)
  show ?thesis
    unfolding Decimal_RoundBank_def k_def [symmetric] c_def [symmetric]
    using ov
    by (simp add: np pw and_then_def Let_def bigF low qr lt eq od)
qed

lemma int_half_even:
  "int (if F < 2 * (c mod F) \<or> (2 * (c mod F) = F \<and> odd (c div F)) then c div F + 1 else c div F)
     = (if int F < 2 * (int c mod int F) \<or> (2 * (int c mod int F) = int F \<and> odd (int c div int F))
        then int c div int F + 1 else int c div int F)"
proof -
  have m: "int c mod int F = int (c mod F)" "int c div int F = int (c div F)"
    by (simp_all add: zmod_int zdiv_int)
  have a: "(int F < 2 * int (c mod F)) = (F < 2 * (c mod F))" by linarith
  have b: "(2 * int (c mod F) = int F) = (2 * (c mod F) = F)" by linarith
  show ?thesis unfolding m a b by simp
qed

lemma RoundBank_general:
  assumes p: "p < prec d" "prec d \<le> 19" and c0: "0 \<le> bint_GetBig (coef d)"
  shows "\<exists>c'. Decimal_RoundBank d p = Ok (newDecimal (neg d) c' p)
     \<and> bint_GetBig c' =
        (let F = 10 ^ unat (prec d - p);
             q = bint_GetBig (coef d) div F;
             r = bint_GetBig (coef d) mod F
         in if F < 2 * r \<or> (2 * r = F \<and> odd q) then q + 1 else q)"
proof (cases "bint_overflow (coef d)")
  case False
  define k where "k = unat (prec d - p)"
  note kk = prec_diff [OF p, folded k_def]
  define c where "c = val128 (u128 (coef d))"
  have cb: "bint_GetBig (coef d) = int c"
    using False by (simp add: bint_GetBig_def bint_overflow_def Uint128_Big_eq c_def)
  let ?q = "if 10 ^ k < 2 * (c mod 10 ^ k)
                 \<or> (2 * (c mod 10 ^ k) = 10 ^ k \<and> odd (c div 10 ^ k))
              then c div 10 ^ k + 1 else c div 10 ^ k"
  have qlt: "?q < 2 ^ 128"
  proof -
    have "c div 10 ^ k \<le> c div 10 ^ 1"
      using kk(1) by (intro div_le_mono2 power_increasing) simp_all
    moreover have "c < 2 ^ 128" unfolding c_def using val128_lt [of "u128 (coef d)"] by simp
    ultimately have "c div 10 ^ k + 1 < 2 ^ 128" by simp
    then show ?thesis by (simp split: if_splits)
  qed
  have B1: "bint_GetBig (bintFromU128 (u128_of_nat ?q)) = int ?q"
    using qlt by (simp only: GetBig_U128 val128_u128_of_nat_less)
  have B2: "int ?q = (if 10 ^ k < 2 * (int c mod 10 ^ k)
                 \<or> (2 * (int c mod 10 ^ k) = 10 ^ k \<and> odd (int c div 10 ^ k))
              then int c div 10 ^ k + 1 else int c div 10 ^ k)"
    using int_half_even [of "10 ^ k" c] by simp
  show ?thesis
    unfolding cb Let_def
    by (rule exI, rule conjI, rule RoundBank_fast [OF p False],
        fold k_def c_def, rule trans [OF B1 B2])
next
  case True
  show ?thesis
    unfolding Let_def
    by (rule exI, rule conjI, rule RoundBank_big [OF p True c0], rule GetBig_Big)
qed

lemma RoundBank_examples:
  "Decimal_RoundBank \<lparr>coef = bintFromU64 112345, neg = False, prec = 5\<rparr> 4
     = Ok \<lparr>coef = bintFromU64 11234, neg = False, prec = 4\<rparr>"
  "Decimal_RoundBank \<lparr>coef = bintFromU64 15, neg = False, prec = 1\<rparr> 0
     = Ok \<lparr>coef = bintFromU64 2, neg = False, prec = 0\<rparr>"
  "Decimal_RoundBank \<lparr>coef = bintFromU64 15, neg = True, prec = 1\<rparr> 0
     = Ok \<lparr>coef = bintFromU64 2, neg = True, prec = 0\<rparr>"
  by (subst RoundBank_fast;
      simp add: bint_overflow_def bintFromU64_def bintFromU128_def newDecimal_def bint_IsZero_def
        Uint128_IsZero_def u128_of_nat_def NewFromUint64_def New_def)+

lemma NewFromInt64_examples:
  "NewFromInt64 112345 5 = Ok \<lparr>coef = bintFromU64 112345, neg = False, prec = 5\<rparr>"
  "NewFromInt64 15 1 = Ok \<lparr>coef = bintFromU64 15, neg = False, prec = 1\<rparr>"
  "NewFromInt64 (- 15) 1 = Ok \<lparr>coef = bintFromU64 15, neg = True, prec = 1\<rparr>"
  by (simp_all add: NewFromInt64_def defaultPrec_def newDecimal_def bint_IsZero_def
      bint_overflow_def bintFromU64_def bintFromU128_def NewFromUint64_def New_def
      Uint128_IsZero_def)

section \<open>Powers of a zero base\<close>

lemma Zero_IsZero: "bint_IsZero (coef Zero)"
  by (simp add: Zero_def bint_IsZero_def bint_overflow_def Uint128_IsZero_def Uint128_Zero_def)

lemma Zero_neq_One: "Zero \<noteq> One"
  by (simp add: Zero_def One_eq bintFromU64_def bintFromU128_def NewFromUint64_def New_def
      Uint128_Zero_def)

lemma PowInt_Zero_0: "Decimal_PowInt Zero 0 = Ok Zero"
  by (simp add: Decimal_PowInt_def Zero_IsZero)

lemma PowInt_zero_base: "bint_IsZero (coef d) \<Longrightarrow> Decimal_PowInt d e = Ok Zero"
  by (simp add: Decimal_PowInt_def)

lemma PowInt32_zero_base_0: "Decimal_PowInt32 d 0 = Ok One"
  by (simp add: Decimal_PowInt32_def)

lemma PowInt32_zero_base_neg:
  "bint_IsZero (coef d) \<Longrightarrow> sint e < 0 \<Longrightarrow> Decimal_PowInt32 d e = Error ErrZeroPowNegative"
  by (simp add: Decimal_PowInt32_def)

lemma Zero_not_overflow: "\<not> bint_overflow (coef Zero)" "u128 (coef Zero) = Uint128_Zero"
  "\<not> neg Zero"
  by (simp_all add: Zero_def bint_overflow_def)

lemma PowToIntPart_zero_exp:
  assumes "\<not> neg e" "Decimal_Trunc e 0 = Ok Zero"
  shows "Decimal_PowToIntPart d e = Ok One"
  using assms
  by (simp add: Decimal_PowToIntPart_def and_then_def Zero_not_overflow Uint128_Cmp64_def
      Uint128_Zero_def Uint128_Low_def PowInt32_zero_base_0 Let_def)

lemma PowToIntPart_zero_base_neg:
  "bint_IsZero (coef d) \<Longrightarrow> neg e \<Longrightarrow> Decimal_PowToIntPart d e = Error ErrZeroPowNegative"
  by (simp add: Decimal_PowToIntPart_def)

lemma Trunc_half: "Decimal_Trunc \<lparr>coef = bintFromU64 5, neg = n, prec = 1\<rparr> 0 = Ok Zero"
proof -
  have p: "pow10_at (Suc 0) = Ok (u128_of_nat 10)" by (simp add: pow10_at_eq)
  have l: "Uint128_Low (u128_of_nat 10) = 10" by (simp add: Uint128_Low_def u128_of_nat_def)
  have q: "Uint128_QuoRem64 (NewFromUint64 5) 10 = Ok (u128_of_nat 0, 5)"
    by (simp add: Uint128_QuoRem64_eq)
  have z: "bint_IsZero \<lparr>bigInt = None, u128 = Uint128_Zero\<rparr>"
    by (simp add: bint_IsZero_def bint_overflow_def Uint128_IsZero_def Uint128_Zero_def)
  show ?thesis
    by (simp add: Decimal_Trunc_def p l q and_then_def bint_overflow_def bintFromU64_def
        bintFromU128_def newDecimal_def z)
qed

lemma Trunc_minus_one:
  "Decimal_Trunc \<lparr>coef = bintFromU64 1, neg = True, prec = 0\<rparr> 0
     = Ok \<lparr>coef = bintFromU64 1, neg = True, prec = 0\<rparr>"
  by (simp add: Decimal_Trunc_def)

lemma PowToIntPart_minus_half:
  "Decimal_PowToIntPart Zero \<lparr>coef = bintFromU64 5, neg = True, prec = 1\<rparr>
     = Error ErrZeroPowNegative"
  by (simp add: PowToIntPart_zero_base_neg Zero_IsZero)

lemma neg_neq_Zero: "\<lparr>coef = c, neg = True, prec = p\<rparr> \<noteq> Zero"
  by (simp add: Zero_def)

section \<open>\<open>Add\<close> and \<open>Sub\<close> on the numbers\<close>

lemma Uint128_Mul_exact:
  assumes lt: "val128 u * val128 v < 2 ^ 128"
  shows "Uint128_Mul u v = Ok (u128_of_nat (val128 u * val128 v))"
proof -
  obtain h l where 1: "bits_Mul64 (lo u) (lo v) = (h, l)" by fastforce
  obtain p0 p1 where 2: "bits_Mul64 (hi u) (lo v) = (p0, p1)" by fastforce
  obtain p2 p3 where 3: "bits_Mul64 (lo u) (hi v) = (p2, p3)" by fastforce
  obtain h1 c0 where 4: "bits_Add64 h p1 0 = (h1, c0)" by fastforce
  obtain h2 c1 where 5: "bits_Add64 h1 p3 c0 = (h2, c1)" by fastforce
  define X where "X = unat (hi u) * unat (lo v)"
  define Y where "Y = unat (lo u) * unat (hi v)"
  define Z where "Z = unat (lo u) * unat (lo v)"
  define W where "W = unat (hi u) * unat (hi v)"
  note a = bits_Mul64_prod [OF 1, folded Z_def]
  note b = bits_Mul64_prod [OF 2, folded X_def]
  note c = bits_Mul64_prod [OF 3, folded Y_def]
  have z: "unat (0 :: uint64) \<le> 1" by simp
  note d1 = bits_Add64_sum [OF 4 z]
  note d2 = bits_Add64_sum [OF 5 d1(2)]
  have r: "Uint128_Mul u v =
      (if (hi u \<noteq> 0 \<and> hi v \<noteq> 0) \<or> p0 \<noteq> 0 \<or> p2 \<noteq> 0 \<or> c1 \<noteq> 0
       then Error U128_ErrOverflow else Ok \<lparr>lo = l, hi = h2\<rparr>)"
    by (simp add: Uint128_Mul_def 1 2 3 4 5)
  have P: "val128 u * val128 v
      = W * 340282366920938463463374607431768211456 + (X + Y) * 18446744073709551616 + Z"
    by (simp add: val128_def X_def Y_def Z_def W_def algebra_simps)
  have lt': "W * 340282366920938463463374607431768211456 + (X + Y) * 18446744073709551616 + Z
      < 340282366920938463463374607431768211456"
    using lt unfolding P by simp
  have W0: "W = 0" using lt' by (cases W) simp_all
  then have hz: "\<not> (hi u \<noteq> 0 \<and> hi v \<noteq> 0)"
    by (auto simp: W_def unat_eq_zero)
  have p0: "unat p0 = 0" and p2: "unat p2 = 0" and c0: "unat c0 = 0" and c1: "unat c1 = 0"
    using lt' W0 a b c d1 d2 by simp_all
  have v: "unat h2 * 18446744073709551616 + unat l = val128 u * val128 v"
    unfolding P using W0 a b c d1 d2 p0 p2 c0 c1 by simp
  have n: "\<not> ((hi u \<noteq> 0 \<and> hi v \<noteq> 0) \<or> p0 \<noteq> 0 \<or> p2 \<noteq> 0 \<or> c1 \<noteq> 0)"
    using hz p0 p2 c1 by (simp add: unat_eq_zero)
  have "val128 \<lparr>lo = l, hi = h2\<rparr> = val128 u * val128 v" using v by simp
  then have "\<lparr>lo = l, hi = h2\<rparr> = u128_of_nat (val128 u * val128 v)" by (rule u128_eqI)
  then show ?thesis unfolding r using n by simp
qed

lemma GetBig_None: "bigInt c = None \<Longrightarrow> bint_GetBig c = int (val128 (u128 c))"
  by (simp add: bint_GetBig_def Uint128_Big_eq)

lemma GetBig_Add: "bint_GetBig (bint_Add a b) = bint_GetBig a + bint_GetBig b"
proof (cases "bigInt a = None \<and> bigInt b = None")
  case True
  then show ?thesis
    by (simp add: bint_Add_def bint_overflow_def Uint128_Add_eq GetBig_U128 GetBig_Big
        GetBig_None val128_u128_of_nat)
next
  case False
  then show ?thesis by (auto simp: bint_Add_def bint_overflow_def GetBig_Big)
qed

lemma GetBig_Mul_exact:
  assumes "bint_overflow a \<or> bint_overflow b \<or> val128 (u128 a) * val128 (u128 b) < 2 ^ 128"
  shows "bint_GetBig (bint_Mul a b) = bint_GetBig a * bint_GetBig b"
proof (cases "bigInt a = None \<and> bigInt b = None")
  case True
  then have lt: "val128 (u128 a) * val128 (u128 b) < 2 ^ 128"
    using assms by (simp add: bint_overflow_def)
  have v: "val128 (u128_of_nat (val128 (u128 a) * val128 (u128 b)))
      = val128 (u128 a) * val128 (u128 b)"
    by (rule val128_u128_of_nat_less [OF lt])
  show ?thesis
    using True
    by (simp add: bint_Mul_def bint_overflow_def Uint128_Mul_exact [OF lt] GetBig_U128
        GetBig_None v)
next
  case False
  then show ?thesis by (auto simp: bint_Mul_def bint_overflow_def GetBig_Big)
qed

lemma bint_Cmp_1: "bint_Cmp a b = 1 \<longleftrightarrow> bint_GetBig b < bint_GetBig a"
proof (cases "bigInt a = None \<and> bigInt b = None")
  case True
  then show ?thesis
    by (simp add: bint_Cmp_def bint_overflow_def Uint128_Cmp_eq GetBig_None)
next
  case False
  then show ?thesis by (auto simp: bint_Cmp_def bint_overflow_def)
qed

lemma GetBig_Sub:
  assumes "bint_GetBig b \<le> bint_GetBig a"
  shows "bint_GetBig (fst (bint_Sub a b)) = bint_GetBig a - bint_GetBig b"
proof (cases "bigInt a = None \<and> bigInt b = None")
  case True
  then have le: "val128 (u128 b) \<le> val128 (u128 a)" using assms by (simp add: GetBig_None)
  have lt: "val128 (u128 a) - val128 (u128 b) < 2 ^ 128"
    using val128_lt [of "u128 a"] by simp
  show ?thesis
    using True le
    by (simp add: bint_Sub_def bint_overflow_def Uint128_Sub_eq GetBig_U128 GetBig_None
        val128_u128_of_nat_less [OF lt] of_nat_diff)
next
  case False
  then show ?thesis using assms by (auto simp: bint_Sub_def bint_overflow_def GetBig_Big)
qed

lemma IsZero_GetBig: "bint_IsZero c \<Longrightarrow> bint_GetBig c = 0"
  by (cases "bigInt c")
    (simp_all add: bint_IsZero_def bint_overflow_def GetBig_None Uint128_IsZero_iff)

lemma value_newDecimal:
  "Decimal_value (newDecimal n c p)
     = (if n then - 1 else 1) * of_int (bint_GetBig c) / 10 ^ unat p"
  by (simp add: newDecimal_def Zero_value IsZero_GetBig) (simp add: Decimal_value_def)

lemma scaled_value:
  assumes "k \<le> P"
  shows "(of_int (D * 10 ^ (P - k)) :: rat) / 10 ^ P = of_int D / 10 ^ k"
proof -
  have "(10::rat) ^ P = 10 ^ (P - k) * 10 ^ k"
    using assms by (simp add: power_add [symmetric])
  then show ?thesis by simp
qed

lemma pow10_val: "k < 39 \<Longrightarrow> val128 (u128_of_nat (10 ^ k)) = 10 ^ k"
  by (rule val128_pow10)

lemma scale_GetBig:
  assumes k: "k < 39"
    and ex: "bint_overflow c \<or> val128 (u128 c) * 10 ^ k < 2 ^ 128"
  shows "bint_GetBig (bint_Mul c (bintFromU128 (u128_of_nat (10 ^ k)))) = bint_GetBig c * 10 ^ k"
proof -
  have u: "u128 (bintFromU128 (u128_of_nat (10 ^ k))) = u128_of_nat (10 ^ k)"
    by (simp add: bintFromU128_def)
  have "bint_overflow c \<or> bint_overflow (bintFromU128 (u128_of_nat (10 ^ k)))
      \<or> val128 (u128 c) * val128 (u128 (bintFromU128 (u128_of_nat (10 ^ k)))) < 2 ^ 128"
    using ex unfolding u pow10_val [OF k] by blast
  from GetBig_Mul_exact [OF this] show ?thesis
    by (simp add: GetBig_U128 pow10_val [OF k])
qed

lemma prec_unat:
  fixes p q :: uint8
  shows "p < q \<Longrightarrow> unat (q - p) = unat q - unat p"
    and "p < q \<Longrightarrow> unat p < unat q"
    and "q \<le> 19 \<Longrightarrow> unat q \<le> 19"
  by (simp_all add: unat_sub less_imp_le word_less_nat_alt word_le_nat_alt)

lemma alignCoefs_value:
  assumes pd: "prec d \<le> 19" and pe: "prec e \<le> 19"
    and xd: "bint_overflow (coef d)
             \<or> val128 (u128 (coef d)) * 10 ^ (unat (prec e) - unat (prec d)) < 2 ^ 128"
    and xe: "bint_overflow (coef e)
             \<or> val128 (u128 (coef e)) * 10 ^ (unat (prec d) - unat (prec e)) < 2 ^ 128"
  shows "\<exists>dc ec. alignCoefs d e = Ok (dc, ec, max (prec d) (prec e))
     \<and> bint_GetBig dc = bint_GetBig (coef d) * 10 ^ (unat (max (prec d) (prec e)) - unat (prec d))
     \<and> bint_GetBig ec = bint_GetBig (coef e) * 10 ^ (unat (max (prec d) (prec e)) - unat (prec e))"
proof -
  consider "prec d = prec e" | "prec e < prec d" | "prec d < prec e"
    using linorder_less_linear [of "prec d" "prec e"] by blast
  then show ?thesis
  proof cases
    case 1
    then show ?thesis by (simp add: alignCoefs_def)
  next
    case 2
    define k where "k = unat (prec d) - unat (prec e)"
    have k: "unat (prec d - prec e) = k" "k < 39"
      using prec_unat(1) [OF 2] prec_unat(3) [OF pd] by (simp_all add: k_def)
    have m: "max (prec d) (prec e) = prec d" using 2 by (simp add: max_absorb1 less_imp_le)
    have s: "bint_GetBig (bint_Mul (coef e) (bintFromU128 (u128_of_nat (10 ^ k))))
        = bint_GetBig (coef e) * 10 ^ k"
      by (rule scale_GetBig [OF k(2) xe [folded k_def]])
    have ne: "prec d \<noteq> prec e" using 2 by simp
    show ?thesis
      unfolding m alignCoefs_def k_def [symmetric]
      using 2 ne by (simp add: k pow10_at_eq and_then_def s)
  next
    case 3
    define k where "k = unat (prec e) - unat (prec d)"
    have k: "unat (prec e - prec d) = k" "k < 39"
      using prec_unat(1) [OF 3] prec_unat(3) [OF pe] by (simp_all add: k_def)
    have m: "max (prec d) (prec e) = prec e" using 3 by (simp add: max_absorb2 less_imp_le)
    have s: "bint_GetBig (bint_Mul (coef d) (bintFromU128 (u128_of_nat (10 ^ k))))
        = bint_GetBig (coef d) * 10 ^ k"
      by (rule scale_GetBig [OF k(2) xd [folded k_def]])
    have ne: "prec d \<noteq> prec e" "\<not> prec e < prec d" using 3 by simp_all
    show ?thesis
      unfolding m alignCoefs_def k_def [symmetric]
      using ne by (simp add: k pow10_at_eq and_then_def s)
  qed
qed

lemma aligned_value:
  fixes p P :: uint8
  assumes "p \<le> P"
  shows "(of_int (D * 10 ^ (unat P - unat p)) :: rat) / 10 ^ unat P = of_int D / 10 ^ unat p"
  using assms by (intro scaled_value) (simp add: word_le_nat_alt)

lemma Zero_GetBig: "bint_GetBig (coef Zero) = 0"
  by (simp add: Zero_def bint_GetBig_def Uint128_Big_eq val128_Zero)

lemma GetBig_newDecimal: "bint_GetBig (coef (newDecimal n c p)) = bint_GetBig c"
  by (cases "bint_IsZero c") (simp_all add: newDecimal_def IsZero_GetBig Zero_GetBig)

lemma bintFromU128_fields: "u128 (bintFromU128 u) = u" "\<not> bint_overflow (bintFromU128 u)"
  by (simp_all add: bintFromU128_def bint_overflow_def)

lemma Add_value:
  assumes pd: "prec d \<le> 19" and pe: "prec e \<le> 19"
    and xd: "bint_overflow (coef d)
             \<or> val128 (u128 (coef d)) * 10 ^ (unat (prec e) - unat (prec d)) < 2 ^ 128"
    and xe: "bint_overflow (coef e)
             \<or> val128 (u128 (coef e)) * 10 ^ (unat (prec d) - unat (prec e)) < 2 ^ 128"
  shows "\<exists>s. Decimal_Add d e = Ok s
     \<and> Decimal_value s = Decimal_value d + Decimal_value e
     \<and> (s = Zero \<or> prec s = max (prec d) (prec e))
     \<and> (0 \<le> bint_GetBig (coef d) \<and> 0 \<le> bint_GetBig (coef e) \<longrightarrow> 0 \<le> bint_GetBig (coef s))"
proof -
  define P where "P = max (prec d) (prec e)"
  obtain dc ec where al: "alignCoefs d e = Ok (dc, ec, P)"
    and dc: "bint_GetBig dc = bint_GetBig (coef d) * 10 ^ (unat P - unat (prec d))"
    and ec: "bint_GetBig ec = bint_GetBig (coef e) * 10 ^ (unat P - unat (prec e))"
    using alignCoefs_value [OF pd pe xd xe] unfolding P_def by blast
  have vd: "Decimal_value d = (if neg d then - 1 else 1) * (of_int (bint_GetBig dc) / 10 ^ unat P)"
    unfolding dc aligned_value [of "prec d" P, OF max.cobounded1 [of "prec d" "prec e", folded P_def]]
    by (simp add: Decimal_value_def)
  have ve: "Decimal_value e = (if neg e then - 1 else 1) * (of_int (bint_GetBig ec) / 10 ^ unat P)"
    unfolding ec aligned_value [of "prec e" P, OF max.cobounded2 [of "prec e" "prec d", folded P_def]]
    by (simp add: Decimal_value_def)
  have nd: "newDecimal n c P = Zero \<or> prec (newDecimal n c P) = P" for n c
    by (simp add: newDecimal_def)
  show ?thesis
  proof (cases "neg d = neg e")
    case True
    have "Decimal_Add d e = Ok (newDecimal (neg d) (bint_Add dc ec) P)"
      using True by (simp add: Decimal_Add_def al and_then_def)
    moreover have "Decimal_value (newDecimal (neg d) (bint_Add dc ec) P)
        = Decimal_value d + Decimal_value e"
      unfolding value_newDecimal GetBig_Add vd ve using True
      by (simp add: field_simps)
    moreover have "0 \<le> bint_GetBig (coef d) \<and> 0 \<le> bint_GetBig (coef e)
        \<longrightarrow> 0 \<le> bint_GetBig (coef (newDecimal (neg d) (bint_Add dc ec) P))"
      unfolding GetBig_newDecimal GetBig_Add dc ec by simp
    ultimately show ?thesis unfolding P_def [symmetric] using nd by blast
  next
    case False
    show ?thesis
    proof (cases "bint_Cmp dc ec = 1")
      case c: True
      then have le: "bint_GetBig ec \<le> bint_GetBig dc" by (simp add: bint_Cmp_1)
      have "Decimal_Add d e = Ok (newDecimal (neg d) (fst (bint_Sub dc ec)) P)"
        using False c by (simp add: Decimal_Add_def al and_then_def)
      moreover have "Decimal_value (newDecimal (neg d) (fst (bint_Sub dc ec)) P)
          = Decimal_value d + Decimal_value e"
        unfolding value_newDecimal GetBig_Sub [OF le] vd ve using False
        by (auto simp: field_simps)
      moreover have "0 \<le> bint_GetBig (coef (newDecimal (neg d) (fst (bint_Sub dc ec)) P))"
        unfolding GetBig_newDecimal GetBig_Sub [OF le] using le by simp
      ultimately show ?thesis unfolding P_def [symmetric] using nd by blast
    next
      case c: False
      then have le: "bint_GetBig dc \<le> bint_GetBig ec" by (simp add: bint_Cmp_1)
      have "Decimal_Add d e = Ok (newDecimal (neg e) (fst (bint_Sub ec dc)) P)"
        using False c by (simp add: Decimal_Add_def al and_then_def)
      moreover have "Decimal_value (newDecimal (neg e) (fst (bint_Sub ec dc)) P)
          = Decimal_value d + Decimal_value e"
        unfolding value_newDecimal GetBig_Sub [OF le] vd ve using False
        by (auto simp: field_simps)
      moreover have "0 \<le> bint_GetBig (coef (newDecimal (neg e) (fst (bint_Sub ec dc)) P))"
        unfolding GetBig_newDecimal GetBig_Sub [OF le] using le by simp
      ultimately show ?thesis unfolding P_def [symmetric] using nd by blast
    qed
  qed
qed

lemma Sub_value:
  assumes pd: "prec d \<le> 19" and pe: "prec e \<le> 19"
    and xd: "bint_overflow (coef d)
             \<or> val128 (u128 (coef d)) * 10 ^ (unat (prec e) - unat (prec d)) < 2 ^ 128"
    and xe: "bint_overflow (coef e)
             \<or> val128 (u128 (coef e)) * 10 ^ (unat (prec d) - unat (prec e)) < 2 ^ 128"
  shows "\<exists>s. Decimal_Sub d e = Ok s
     \<and> Decimal_value s = Decimal_value d - Decimal_value e
     \<and> (s = Zero \<or> prec s = max (prec d) (prec e))
     \<and> (0 \<le> bint_GetBig (coef d) \<and> 0 \<le> bint_GetBig (coef e) \<longrightarrow> 0 \<le> bint_GetBig (coef s))"
proof -
  define P where "P = max (prec d) (prec e)"
  obtain dc ec where al: "alignCoefs d e = Ok (dc, ec, P)"
    and dc: "bint_GetBig dc = bint_GetBig (coef d) * 10 ^ (unat P - unat (prec d))"
    and ec: "bint_GetBig ec = bint_GetBig (coef e) * 10 ^ (unat P - unat (prec e))"
    using alignCoefs_value [OF pd pe xd xe] unfolding P_def by blast
  have vd: "Decimal_value d = (if neg d then - 1 else 1) * (of_int (bint_GetBig dc) / 10 ^ unat P)"
    unfolding dc aligned_value [of "prec d" P, OF max.cobounded1 [of "prec d" "prec e", folded P_def]]
    by (simp add: Decimal_value_def)
  have ve: "Decimal_value e = (if neg e then - 1 else 1) * (of_int (bint_GetBig ec) / 10 ^ unat P)"
    unfolding ec aligned_value [of "prec e" P, OF max.cobounded2 [of "prec e" "prec d", folded P_def]]
    by (simp add: Decimal_value_def)
  have nd: "newDecimal n c P = Zero \<or> prec (newDecimal n c P) = P" for n c
    by (simp add: newDecimal_def)
  show ?thesis
  proof (cases "neg d \<noteq> neg e")
    case True
    have "Decimal_Sub d e = Ok (newDecimal (neg d) (bint_Add dc ec) P)"
      using True by (simp add: Decimal_Sub_def al and_then_def)
    moreover have "Decimal_value (newDecimal (neg d) (bint_Add dc ec) P)
        = Decimal_value d - Decimal_value e"
      unfolding value_newDecimal GetBig_Add vd ve using True
      by (auto simp: field_simps)
    moreover have "0 \<le> bint_GetBig (coef d) \<and> 0 \<le> bint_GetBig (coef e)
        \<longrightarrow> 0 \<le> bint_GetBig (coef (newDecimal (neg d) (bint_Add dc ec) P))"
      unfolding GetBig_newDecimal GetBig_Add dc ec by simp
    ultimately show ?thesis unfolding P_def [symmetric] using nd by blast
  next
    case False
    show ?thesis
    proof (cases "bint_Cmp dc ec = 1")
      case c: True
      then have le: "bint_GetBig ec \<le> bint_GetBig dc" by (simp add: bint_Cmp_1)
      have "Decimal_Sub d e = Ok (newDecimal (neg d) (fst (bint_Sub dc ec)) P)"
        using False c by (simp add: Decimal_Sub_def al and_then_def)
      moreover have "Decimal_value (newDecimal (neg d) (fst (bint_Sub dc ec)) P)
          = Decimal_value d - Decimal_value e"
        unfolding value_newDecimal GetBig_Sub [OF le] vd ve using False
        by (auto simp: field_simps)
      moreover have "0 \<le> bint_GetBig (coef (newDecimal (neg d) (fst (bint_Sub dc ec)) P))"
        unfolding GetBig_newDecimal GetBig_Sub [OF le] using le by simp
      ultimately show ?thesis unfolding P_def [symmetric] using nd by blast
    next
      case c: False
      then have le: "bint_GetBig dc \<le> bint_GetBig ec" by (simp add: bint_Cmp_1)
      have "Decimal_Sub d e = Ok (newDecimal (\<not> neg d) (fst (bint_Sub ec dc)) P)"
        using False c by (simp add: Decimal_Sub_def al and_then_def)
      moreover have "Decimal_value (newDecimal (\<not> neg d) (fst (bint_Sub ec dc)) P)
          = Decimal_value d - Decimal_value e"
        unfolding value_newDecimal GetBig_Sub [OF le] vd ve using False
        by (auto simp: field_simps)
      moreover have "0 \<le> bint_GetBig (coef (newDecimal (\<not> neg d) (fst (bint_Sub ec dc)) P))"
        unfolding GetBig_newDecimal GetBig_Sub [OF le] using le by simp
      ultimately show ?thesis unfolding P_def [symmetric] using nd by blast
    qed
  qed
qed


section \<open>Every operation keeps the zero canonical\<close>

lemma cz_newDecimal [simp]: "canonicalZero (newDecimal n c p)"
  by (simp add: canonicalZero_def newDecimal_def)

lemma cz_Zero [simp]: "canonicalZero Zero"
  by (simp add: canonicalZero_def)

lemma cz_One [simp]: "canonicalZero One"
  by (simp add: One_def)

lemma cz_NewFromHiLo: "NewFromHiLo n h l p = Ok d \<Longrightarrow> canonicalZero d"
  by (auto simp: NewFromHiLo_def split: if_splits)

lemma cz_NewFromUint64: "Decimal_NewFromUint64 c p = Ok d \<Longrightarrow> canonicalZero d"
  by (auto simp: Decimal_NewFromUint64_def split: if_splits)

lemma cz_NewFromInt64: "NewFromInt64 c p = Ok d \<Longrightarrow> canonicalZero d"
  by (auto simp: NewFromInt64_def Let_def split: if_splits)

lemma cz_parseBytes: "parseBytes pb b = Ok d \<Longrightarrow> canonicalZero d"
  by (auto simp: parseBytes_def split: result.splits)

lemma and_then_Ok: "and_then m f = Ok r \<Longrightarrow> \<exists>x. m = Ok x \<and> f x = Ok r"
  by (cases m) (simp_all add: and_then_def)

lemma cz_Add: "Decimal_Add d e = Ok r \<Longrightarrow> canonicalZero r"
  unfolding Decimal_Add_def by (drule and_then_Ok) (auto split: if_splits)

lemma cz_Sub: "Decimal_Sub d e = Ok r \<Longrightarrow> canonicalZero r"
  unfolding Decimal_Sub_def by (drule and_then_Ok) (auto split: if_splits)

lemma cz_Neg: "canonicalZero (Decimal_Neg d)"
  by (simp add: Decimal_Neg_def)

lemma cz_Abs: "canonicalZero (Decimal_Abs d)"
  by (simp add: Decimal_Abs_def)

lemma cz_Add64: "Decimal_Add64 d e = Ok r \<Longrightarrow> canonicalZero r"
  unfolding Decimal_Add64_def by (drule and_then_Ok) (auto simp: Let_def split: if_splits)

lemma cz_Sub64: "Decimal_Sub64 d e = Ok r \<Longrightarrow> canonicalZero r"
  unfolding Decimal_Sub64_def by (drule and_then_Ok) (auto simp: Let_def split: if_splits)

lemma cz_tryMulU128: "tryMulU128 d e n p = Ok r \<Longrightarrow> canonicalZero r"
  unfolding tryMulU128_def
  by (auto simp: Let_def dest!: and_then_Ok split: if_splits prod.splits)

lemma cz_Mul: "Decimal_Mul d e = Ok r \<Longrightarrow> canonicalZero r"
  unfolding Decimal_Mul_def
  by (auto simp: Let_def cz_tryMulU128 dest!: and_then_Ok split: if_splits prod.splits result.splits)

lemma cz_Mul64: "canonicalZero d \<Longrightarrow> canonicalZero (Decimal_Mul64 d v)"
  unfolding Decimal_Mul64_def
  by (auto simp: Let_def split: result.splits)

lemma cz_tryDivU128: "tryDivU128 d e n = Ok r \<Longrightarrow> canonicalZero r"
  unfolding tryDivU128_def
  by (auto simp: Let_def dest!: and_then_Ok split: if_splits prod.splits)

lemma cz_Div: "Decimal_Div d e = Ok r \<Longrightarrow> canonicalZero r"
  unfolding Decimal_Div_def
  by (auto simp: Let_def cz_tryDivU128 dest!: and_then_Ok split: if_splits prod.splits result.splits)

lemma cz_Div64: "canonicalZero d \<Longrightarrow> Decimal_Div64 d v = Ok r \<Longrightarrow> canonicalZero r"
  unfolding Decimal_Div64_def
  by (auto simp: Let_def dest!: and_then_Ok split: if_splits prod.splits result.splits)

lemma cz_tryQuoRemU128:
  "tryQuoRemU128 d e = Ok (q, r) \<Longrightarrow> canonicalZero q \<and> canonicalZero r"
  unfolding tryQuoRemU128_def
  by (auto simp: Let_def dest!: and_then_Ok split: if_splits prod.splits)

lemma cz_quoRemBig:
  "quoRemBig d e = Ok (q, r) \<Longrightarrow> canonicalZero q \<and> canonicalZero r"
  unfolding quoRemBig_def
  by (auto simp: Let_def dest!: and_then_Ok split: if_splits prod.splits)

lemma cz_QuoRem:
  "Decimal_QuoRem d e = Ok (q, r) \<Longrightarrow> canonicalZero q \<and> canonicalZero r"
  unfolding Decimal_QuoRem_def
  by (auto simp: cz_tryQuoRemU128 cz_quoRemBig split: if_splits result.splits)

lemma cz_Mod: "Decimal_Mod d e = Ok r \<Longrightarrow> canonicalZero r"
  unfolding Decimal_Mod_def
  by (auto dest!: and_then_Ok cz_QuoRem split: prod.splits)

lemma cz_RoundBank: "canonicalZero d \<Longrightarrow> Decimal_RoundBank d p = Ok r \<Longrightarrow> canonicalZero r"
  unfolding Decimal_RoundBank_def
  by (auto simp: Let_def dest!: and_then_Ok split: if_splits prod.splits result.splits)

lemma cz_RoundAwayFromZero:
  "canonicalZero d \<Longrightarrow> Decimal_RoundAwayFromZero d p = Ok r \<Longrightarrow> canonicalZero r"
  unfolding Decimal_RoundAwayFromZero_def
  by (auto simp: Let_def dest!: and_then_Ok split: if_splits prod.splits result.splits)

lemma cz_RoundHAZ: "canonicalZero d \<Longrightarrow> Decimal_RoundHAZ d p = Ok r \<Longrightarrow> canonicalZero r"
  unfolding Decimal_RoundHAZ_def
  by (auto simp: Let_def dest!: and_then_Ok split: if_splits prod.splits result.splits)

lemma cz_RoundHTZ: "canonicalZero d \<Longrightarrow> Decimal_RoundHTZ d p = Ok r \<Longrightarrow> canonicalZero r"
  unfolding Decimal_RoundHTZ_def
  by (auto simp: Let_def dest!: and_then_Ok split: if_splits prod.splits result.splits)

lemma cz_Floor: "canonicalZero d \<Longrightarrow> Decimal_Floor d = Ok r \<Longrightarrow> canonicalZero r"
  unfolding Decimal_Floor_def
  by (auto simp: Let_def dest!: and_then_Ok split: if_splits prod.splits result.splits)

lemma cz_Ceil: "canonicalZero d \<Longrightarrow> Decimal_Ceil d = Ok r \<Longrightarrow> canonicalZero r"
  unfolding Decimal_Ceil_def
  by (auto simp: Let_def dest!: and_then_Ok split: if_splits prod.splits result.splits)

lemma cz_Trunc: "canonicalZero d \<Longrightarrow> Decimal_Trunc d p = Ok r \<Longrightarrow> canonicalZero r"
  unfolding Decimal_Trunc_def
  by (auto simp: Let_def dest!: and_then_Ok split: if_splits prod.splits result.splits)

lemma cz_tryPowIntU128: "e \<noteq> 1 \<Longrightarrow> tryPowIntU128 d e = Ok r \<Longrightarrow> canonicalZero r"
  unfolding tryPowIntU128_def
  by (auto simp: Let_def dest!: and_then_Ok split: if_splits prod.splits)

lemma cz_tryInversePowIntU128: "tryInversePowIntU128 d e = Ok r \<Longrightarrow> canonicalZero r"
  unfolding tryInversePowIntU128_def
  by (auto simp: Let_def dest!: and_then_Ok split: if_splits prod.splits option.splits)

lemma cz_powIntInverse: "powIntInverse d e = Ok r \<Longrightarrow> canonicalZero r"
  unfolding powIntInverse_def
  by (auto simp: Let_def cz_tryInversePowIntU128 dest!: and_then_Ok split: result.splits)

lemma cz_PowInt: "canonicalZero d \<Longrightarrow> Decimal_PowInt d e = Ok r \<Longrightarrow> canonicalZero r"
  unfolding Decimal_PowInt_def
  by (auto simp: Let_def cz_powIntInverse cz_tryPowIntU128 dest!: and_then_Ok
      split: if_splits result.splits)

lemma scast32_eq_1:
  fixes e :: int32
  assumes "(scast e :: int64) = 1"
  shows "e = 1"
proof -
  have "sint (scast e :: int64) = sint e"
    by (rule sint_up_scast) (simp add: is_up)
  then have "sint e = sint (1 :: int32)" using assms by simp
  then show ?thesis by (rule signed_word_eqI)
qed

lemma cz_tryPowIntU128_32:
  "e \<noteq> 1 \<Longrightarrow> tryPowIntU128 d (scast (e :: int32)) = Ok r \<Longrightarrow> canonicalZero r"
  using cz_tryPowIntU128 [of "scast e" d r] scast32_eq_1 [of e] by blast

lemma cz_PowInt32: "canonicalZero d \<Longrightarrow> Decimal_PowInt32 d e = Ok r \<Longrightarrow> canonicalZero r"
  unfolding Decimal_PowInt32_def
  by (auto simp: Let_def cz_powIntInverse cz_tryPowIntU128_32 dest!: and_then_Ok
      split: if_splits result.splits)

lemma cz_PowToIntPart:
  "canonicalZero d \<Longrightarrow> Decimal_PowToIntPart d e = Ok r \<Longrightarrow> canonicalZero r"
  unfolding Decimal_PowToIntPart_def
  by (auto simp: Let_def dest!: and_then_Ok dest: cz_PowInt32 split: if_splits)

lemma cz_sqrtU128: "sqrtU128 d = Some (Ok r) \<Longrightarrow> canonicalZero r"
  unfolding sqrtU128_def
  by (auto split: result.splits option.splits)

lemma cz_Sqrt: "Decimal_Sqrt d = Some (Ok r) \<Longrightarrow> canonicalZero r"
  unfolding Decimal_Sqrt_def
  by (auto simp: Let_def cz_sqrtU128 dest!: and_then_Ok
      split: if_splits result.splits option.splits)

lemma reachable_canonicalZero: "reachable d \<Longrightarrow> canonicalZero d"
proof (induction rule: reachable.induct)
  case r_Zero show ?case by simp
next
  case r_One show ?case by simp
next
  case (r_NewFromHiLo n h l p d) then show ?case by (rule cz_NewFromHiLo)
next
  case (r_NewFromUint64 c p d) then show ?case by (rule cz_NewFromUint64)
next
  case (r_NewFromInt64 i p d) then show ?case by (rule cz_NewFromInt64)
next
  case (r_Parse pb b d) then show ?case by (rule cz_parseBytes)
next
  case (r_Add d e r) then show ?case by (auto intro: cz_Add)
next
  case (r_Sub d e r) then show ?case by (auto intro: cz_Sub)
next
  case (r_Mul d e r) then show ?case by (auto intro: cz_Mul)
next
  case (r_Div d e r) then show ?case by (auto intro: cz_Div)
next
  case (r_Quo d e q r) then show ?case by (auto dest: cz_QuoRem)
next
  case (r_Rem d e q r) then show ?case by (auto dest: cz_QuoRem)
next
  case (r_Mod d e r) then show ?case by (auto intro: cz_Mod)
next
  case (r_Add64 d v r) then show ?case by (auto intro: cz_Add64)
next
  case (r_Sub64 d v r) then show ?case by (auto intro: cz_Sub64)
next
  case (r_Mul64 d v) then show ?case by (auto intro: cz_Mul64)
next
  case (r_Div64 d v r) then show ?case by (auto intro: cz_Div64)
next
  case (r_Neg d) show ?case by (rule cz_Neg)
next
  case (r_Abs d) show ?case by (rule cz_Abs)
next
  case (r_RoundBank d p r) then show ?case by (auto intro: cz_RoundBank)
next
  case (r_RoundAwayFromZero d p r) then show ?case by (auto intro: cz_RoundAwayFromZero)
next
  case (r_RoundHAZ d p r) then show ?case by (auto intro: cz_RoundHAZ)
next
  case (r_RoundHTZ d p r) then show ?case by (auto intro: cz_RoundHTZ)
next
  case (r_Floor d r) then show ?case by (auto intro: cz_Floor)
next
  case (r_Ceil d r) then show ?case by (auto intro: cz_Ceil)
next
  case (r_Trunc d p r) then show ?case by (auto intro: cz_Trunc)
next
  case (r_PowInt d x r) then show ?case by (auto intro: cz_PowInt)
next
  case (r_PowInt32 d y r) then show ?case by (auto intro: cz_PowInt32)
next
  case (r_PowToIntPart d e r) then show ?case by (auto intro: cz_PowToIntPart)
next
  case (r_Sqrt d r) then show ?case by (auto intro: cz_Sqrt)
qed

lemma Cmp_Zero_Zero: "Decimal_Cmp Zero Zero = Ok 0"
  by (simp add: Decimal_Cmp_def cmpDecSameSign_def tryCmpU128_def Zero_def bint_overflow_def
      Uint128_Cmp_eq)

lemma Zero_flags: "\<not> neg Zero" "prec Zero = 0"
  by (simp_all add: Zero_def)

lemma Sub_self_example:
  "Decimal_Sub \<lparr>coef = bintFromU64 15, neg = True, prec = 1\<rparr>
     \<lparr>coef = bintFromU64 15, neg = True, prec = 1\<rparr> = Ok Zero"
proof -
  have s: "Uint128_Sub (NewFromUint64 15) (NewFromUint64 15) = Ok Uint128_Zero"
    by (simp add: Uint128_Sub_eq)
  have z: "bint_IsZero (bintFromU128 Uint128_Zero)"
    by (simp add: bint_IsZero_def bint_overflow_def bintFromU128_def Uint128_IsZero_iff val128_Zero)
  show ?thesis
    by (simp add: Decimal_Sub_def alignCoefs_def and_then_def bint_Cmp_def bint_Sub_def
        bint_overflow_def bintFromU64_def bintFromU128_def Uint128_Cmp_eq s newDecimal_def
        z [unfolded bintFromU128_def])
qed

section \<open>\<open>Cmp\<close> and the order of the numbers\<close>

lemma MulFull_pow10_val:
  assumes k: "k \<le> 19"
  shows "(case Uint128_MulFull u (u128_of_nat (10 ^ k)) of (h, l) \<Rightarrow> val256 (Uint256_New l h))
            = val128 u * 10 ^ k"
proof -
  define F :: nat where "F = 10 ^ k"
  have F64: "F < 18446744073709551616" unfolding F_def by (rule pow10_19_lt [OF k])
  have hz: "hi (u128_of_nat F) = 0"
    using F64 by (simp add: u128_of_nat_def)
  have lz: "unat (lo (u128_of_nat F)) = F"
    using F64 by (simp add: u128_of_nat_def unat_of_nat64)
  have vF: "val128 (u128_of_nat F) = F" using F64 by (simp add: val128_u128_of_nat)
  have "unat (hi u) * F < 18446744073709551616 * 18446744073709551616"
    using unat_lt64 [of "hi u"] F64 by (intro mult_strict_mono) simp_all
  then have cross: "unat (hi u) * unat (lo (u128_of_nat F)) + unat (lo u) * unat (hi (u128_of_nat F))
      < 2 ^ 128"
    by (simp add: hz lz)
  have "val128 u * F < 340282366920938463463374607431768211456 * 18446744073709551616"
    using val128_lt [of u] F64 by (intro mult_strict_mono) simp_all
  then have d: "val128 u * F div 340282366920938463463374607431768211456
      < 340282366920938463463374607431768211456"
    by (simp add: less_mult_imp_div_less)
  have "val128 (u128_of_nat (val128 u * F div 2 ^ 128)) * 2 ^ 128
          + val128 (u128_of_nat (val128 u * F)) = val128 u * F"
    using d by (simp add: val128_u128_of_nat)
  then show ?thesis
    unfolding F_def [symmetric] Uint128_MulFull_eq [OF cross] vF by simp
qed

lemma tryCmpU128_eq:
  assumes pa: "prec a \<le> 19" and pb: "prec b \<le> 19"
    and ov: "\<not> bint_overflow (coef a)" "\<not> bint_overflow (coef b)"
  shows "tryCmpU128 a b =
     Ok (big_Cmp (bint_GetBig (coef a) * 10 ^ (unat (prec b) - unat (prec a)))
                 (bint_GetBig (coef b) * 10 ^ (unat (prec a) - unat (prec b))))"
proof -
  have ga: "bint_GetBig (coef a) = int (val128 (u128 (coef a)))"
    and gb: "bint_GetBig (coef b) = int (val128 (u128 (coef b)))"
    using ov by (simp_all add: bint_overflow_def GetBig_None)
  consider "prec a = prec b" | "prec a < prec b" | "prec b < prec a"
    using linorder_less_linear [of "prec a" "prec b"] by blast
  then show ?thesis
  proof cases
    case 1
    then show ?thesis
      using ov by (simp add: tryCmpU128_def Uint128_Cmp_eq big_Cmp_def ga gb)
  next
    case 2
    define k where "k = unat (prec b) - unat (prec a)"
    have k: "unat (prec b - prec a) = k" "k \<le> 19" "k < 39"
      using prec_unat(1) [OF 2] prec_unat(3) [OF pb] by (simp_all add: k_def)
    have z: "unat (prec a) - unat (prec b) = 0" using prec_unat(2) [OF 2] by simp
    obtain h l where m: "Uint128_MulFull (u128 (coef a)) (u128_of_nat (10 ^ k)) = (h, l)"
      by fastforce
    have v: "val256 (Uint256_New l h) = val128 (u128 (coef a)) * 10 ^ k"
      using MulFull_pow10_val [OF k(2), of "u128 (coef a)"] unfolding m by simp
    have ne: "prec a \<noteq> prec b" using 2 by simp
    have "tryCmpU128 a b = Ok (Uint256_Cmp128 (Uint256_New l h) (u128 (coef b)))"
      using ov 2 ne by (simp add: tryCmpU128_def k pow10_at_eq and_then_def m)
    also have "Uint256_Cmp128 (Uint256_New l h) (u128 (coef b))
        = big_Cmp (int (val128 (u128 (coef a))) * 10 ^ k) (int (val128 (u128 (coef b))))"
    proof -
      define X where "X = val128 (u128 (coef a)) * 10 ^ k"
      have iX: "int (val128 (u128 (coef a))) * 10 ^ k = int X" by (simp add: X_def)
      show ?thesis
        unfolding Uint256_Cmp128_eq v big_Cmp_def iX X_def [symmetric] by auto
    qed
    finally show ?thesis unfolding ga gb k_def [symmetric] z by simp
  next
    case 3
    define k where "k = unat (prec a) - unat (prec b)"
    have k: "unat (prec a - prec b) = k" "k \<le> 19" "k < 39"
      using prec_unat(1) [OF 3] prec_unat(3) [OF pa] by (simp_all add: k_def)
    have z: "unat (prec b) - unat (prec a) = 0" using prec_unat(2) [OF 3] by simp
    obtain h l where m: "Uint128_MulFull (u128 (coef b)) (u128_of_nat (10 ^ k)) = (h, l)"
      by fastforce
    have v: "val256 (Uint256_New l h) = val128 (u128 (coef b)) * 10 ^ k"
      using MulFull_pow10_val [OF k(2), of "u128 (coef b)"] unfolding m by simp
    have ne: "prec a \<noteq> prec b" "\<not> prec a < prec b" using 3 by simp_all
    have "tryCmpU128 a b = Ok (- Uint256_Cmp128 (Uint256_New l h) (u128 (coef a)))"
      using ov ne by (simp add: tryCmpU128_def k pow10_at_eq and_then_def m)
    also have "- Uint256_Cmp128 (Uint256_New l h) (u128 (coef a))
        = big_Cmp (int (val128 (u128 (coef a)))) (int (val128 (u128 (coef b))) * 10 ^ k)"
    proof -
      define X where "X = val128 (u128 (coef b)) * 10 ^ k"
      have iX: "int (val128 (u128 (coef b))) * 10 ^ k = int X" by (simp add: X_def)
      show ?thesis
        unfolding Uint256_Cmp128_eq v big_Cmp_def iX X_def [symmetric] by auto
    qed
    finally show ?thesis unfolding ga gb k_def [symmetric] z by simp
  qed
qed

lemma Uint128_Big_pow10: "k < 39 \<Longrightarrow> Uint128_Big (u128_of_nat (10 ^ k)) = 10 ^ k"
  using pow10_lt [of k] by (simp add: Uint128_Big_eq val128_u128_of_nat)

lemma cmpBig_eq:
  assumes pa: "prec a \<le> 19" and pb: "prec b \<le> 19"
  shows "(let dBig = bint_GetBig (coef a); eBig = bint_GetBig (coef b)
           in if prec a = prec b then Ok (big_Cmp dBig eBig)
              else if prec a < prec b then
                and_then (pow10_at (unat (prec b - prec a))) (\<lambda>f.
                  Ok (big_Cmp (dBig * Uint128_Big f) eBig))
              else
                and_then (pow10_at (unat (prec a - prec b))) (\<lambda>f.
                  Ok (big_Cmp dBig (eBig * Uint128_Big f))))
       = Ok (big_Cmp (bint_GetBig (coef a) * 10 ^ (unat (prec b) - unat (prec a)))
                 (bint_GetBig (coef b) * 10 ^ (unat (prec a) - unat (prec b))))"
proof -
  consider "prec a = prec b" | "prec a < prec b" | "prec b < prec a"
    using linorder_less_linear [of "prec a" "prec b"] by blast
  then show ?thesis
  proof cases
    case 1
    then show ?thesis by (simp add: Let_def)
  next
    case 2
    define k where "k = unat (prec b) - unat (prec a)"
    have k: "unat (prec b - prec a) = k" "k < 39"
      using prec_unat(1) [OF 2] prec_unat(3) [OF pb] by (simp_all add: k_def)
    have z: "unat (prec a) - unat (prec b) = 0" using prec_unat(2) [OF 2] by simp
    have ne: "prec a \<noteq> prec b" using 2 by simp
    show ?thesis
      unfolding k_def [symmetric] z
      using 2 ne by (simp add: Let_def k pow10_at_eq and_then_def Uint128_Big_pow10)
  next
    case 3
    define k where "k = unat (prec a) - unat (prec b)"
    have k: "unat (prec a - prec b) = k" "k < 39"
      using prec_unat(1) [OF 3] prec_unat(3) [OF pa] by (simp_all add: k_def)
    have z: "unat (prec b) - unat (prec a) = 0" using prec_unat(2) [OF 3] by simp
    have ne: "prec a \<noteq> prec b" "\<not> prec a < prec b" using 3 by simp_all
    show ?thesis
      unfolding k_def [symmetric] z
      using ne by (simp add: Let_def k pow10_at_eq and_then_def Uint128_Big_pow10)
  qed
qed

lemma cmpDecSameSign_eq:
  assumes pa: "prec a \<le> 19" and pb: "prec b \<le> 19"
  shows "cmpDecSameSign a b =
     Ok (big_Cmp (bint_GetBig (coef a) * 10 ^ (unat (prec b) - unat (prec a)))
                 (bint_GetBig (coef b) * 10 ^ (unat (prec a) - unat (prec b))))"
proof (cases "bint_overflow (coef a) \<or> bint_overflow (coef b)")
  case True
  then have "tryCmpU128 a b = Error errOverflow" by (simp add: tryCmpU128_def)
  then show ?thesis
    unfolding cmpDecSameSign_def by (simp add: cmpBig_eq [OF pa pb])
next
  case False
  then have "\<not> bint_overflow (coef a)" "\<not> bint_overflow (coef b)" by simp_all
  from tryCmpU128_eq [OF pa pb this] show ?thesis
    unfolding cmpDecSameSign_def by simp
qed

lemma max_prec_diff:
  fixes p q :: uint8
  shows "unat (max p q) - unat p = unat q - unat p"
    and "unat (max p q) - unat q = unat p - unat q"
  by (auto simp: max_def word_le_nat_alt)

lemma value_aligned:
  "Decimal_value a = (if neg a then - 1 else 1)
       * (of_int (bint_GetBig (coef a) * 10 ^ (unat (prec b) - unat (prec a)))
          / 10 ^ unat (max (prec a) (prec b)))"
  unfolding max_prec_diff(1) [of "prec a" "prec b", symmetric]
    aligned_value [of "prec a" "max (prec a) (prec b)", OF max.cobounded1]
  by (simp add: Decimal_value_def)

lemma value_aligned2:
  "Decimal_value b = (if neg b then - 1 else 1)
       * (of_int (bint_GetBig (coef b) * 10 ^ (unat (prec a) - unat (prec b)))
          / 10 ^ unat (max (prec a) (prec b)))"
  unfolding max_prec_diff(2) [of "prec a" "prec b", symmetric]
    aligned_value [of "prec b" "max (prec a) (prec b)", OF max.cobounded2]
  by (simp add: Decimal_value_def)

lemma neg_canonical_pos:
  assumes "canonicalZero d" "neg d" "0 \<le> bint_GetBig (coef d)"
  shows "0 < bint_GetBig (coef d)"
proof -
  have "d \<noteq> Zero" using assms(2) by (auto simp: Zero_flags)
  then have "\<not> bint_IsZero (coef d)" using assms(1) by (auto simp: canonicalZero_def)
  then have "bint_GetBig (coef d) \<noteq> 0"
    by (cases "bigInt (coef d)")
      (simp_all add: bint_IsZero_def bint_overflow_def GetBig_None Uint128_IsZero_iff)
  then show ?thesis using assms(3) by simp
qed

lemma Decimal_Cmp_value:
  assumes pa: "prec a \<le> 19" and pb: "prec b \<le> 19"
    and na: "0 \<le> bint_GetBig (coef a)" and nb: "0 \<le> bint_GetBig (coef b)"
    and ca: "canonicalZero a" and cb: "canonicalZero b"
  shows "Decimal_Cmp a b =
     Ok (if Decimal_value a < Decimal_value b then - 1
         else if Decimal_value a = Decimal_value b then 0 else 1)"
proof -
  define A where "A = bint_GetBig (coef a) * 10 ^ (unat (prec b) - unat (prec a))"
  define B where "B = bint_GetBig (coef b) * 10 ^ (unat (prec a) - unat (prec b))"
  define T :: rat where "T = 10 ^ unat (max (prec a) (prec b))"
  have T: "0 < T" by (simp add: T_def)
  have va: "Decimal_value a = (if neg a then - 1 else 1) * (of_int A / T)"
    unfolding A_def T_def by (rule value_aligned)
  have vb: "Decimal_value b = (if neg b then - 1 else 1) * (of_int B / T)"
    unfolding B_def T_def by (rule value_aligned2)
  have A0: "0 \<le> A" and B0: "0 \<le> B" using na nb by (simp_all add: A_def B_def)
  have Apos: "neg a \<Longrightarrow> 0 < A"
    using neg_canonical_pos [OF ca _ na] by (simp add: A_def)
  have Bpos: "neg b \<Longrightarrow> 0 < B"
    using neg_canonical_pos [OF cb _ nb] by (simp add: B_def)
  have c: "cmpDecSameSign a b = Ok (big_Cmp A B)"
    unfolding A_def B_def by (rule cmpDecSameSign_eq [OF pa pb])
  have lt: "(of_int x / T < of_int y / T) = (x < y)" for x y :: int
    using T by (simp add: divide_less_cancel)
  have eq: "(of_int x / T = of_int y / T) = (x = y)" for x y :: int
    using T by simp
  consider "neg a" "\<not> neg b" | "\<not> neg a" "neg b" | "neg a" "neg b" | "\<not> neg a" "\<not> neg b"
    by blast
  then show ?thesis
  proof cases
    case 1
    have "of_int (- A) / T < of_int B / T" unfolding lt using Apos [OF 1(1)] B0 by simp
    then have "Decimal_value a < Decimal_value b" using 1 by (simp add: va vb)
    then show ?thesis using 1 by (simp add: Decimal_Cmp_def)
  next
    case 2
    have "of_int (- B) / T < of_int A / T" unfolding lt using Bpos [OF 2(2)] A0 by simp
    then have "Decimal_value b < Decimal_value a" using 2 by (simp add: va vb)
    then show ?thesis using 2 by (simp add: Decimal_Cmp_def)
  next
    case 3
    have l: "(Decimal_value a < Decimal_value b) = (B < A)"
      using 3 lt [of B A] by (simp add: va vb)
    have e: "(Decimal_value a = Decimal_value b) = (A = B)"
      using 3 eq [of A B] by (simp add: va vb)
    show ?thesis
      unfolding l e using 3 by (auto simp: Decimal_Cmp_def c and_then_def big_Cmp_def)
  next
    case 4
    have l: "(Decimal_value a < Decimal_value b) = (A < B)"
      using 4 lt [of A B] by (simp add: va vb)
    have e: "(Decimal_value a = Decimal_value b) = (A = B)"
      using 4 eq [of A B] by (simp add: va vb)
    show ?thesis
      unfolding l e using 4 by (auto simp: Decimal_Cmp_def c big_Cmp_def)
  qed
qed

section \<open>\<open>Add\<close> followed by \<open>Sub\<close>\<close>

lemma Zero_fields: "prec Zero = 0" "\<not> neg Zero" "val128 (u128 (coef Zero)) = 0"
  "\<not> bint_overflow (coef Zero)"
  by (simp_all add: Zero_def bint_overflow_def val128_Zero)

lemma Add_Sub_general:
  assumes pd: "prec d \<le> 19" and pe: "prec e \<le> 19"
    and xd: "bint_overflow (coef d)
             \<or> val128 (u128 (coef d)) * 10 ^ (unat (prec e) - unat (prec d)) < 2 ^ 128"
    and xe: "bint_overflow (coef e)
             \<or> val128 (u128 (coef e)) * 10 ^ (unat (prec d) - unat (prec e)) < 2 ^ 128"
  shows "\<exists>s r. Decimal_Add d e = Ok s \<and> Decimal_Sub s e = Ok r
     \<and> Decimal_value r = Decimal_value d
     \<and> (canonicalZero d \<and> 0 \<le> bint_GetBig (coef d) \<and> 0 \<le> bint_GetBig (coef e)
          \<longrightarrow> Decimal_Cmp r d = Ok 0 \<and> Decimal_Equal r d = Ok True)"
proof -
  obtain s where s: "Decimal_Add d e = Ok s"
    and vs: "Decimal_value s = Decimal_value d + Decimal_value e"
    and ps: "s = Zero \<or> prec s = max (prec d) (prec e)"
    and ns: "0 \<le> bint_GetBig (coef d) \<and> 0 \<le> bint_GetBig (coef e) \<longrightarrow> 0 \<le> bint_GetBig (coef s)"
    using Add_value [OF pd pe xd xe] by blast
  have ps19: "prec s \<le> 19" using ps pd pe by (auto simp: Zero_fields max_def)
  have xs: "bint_overflow (coef s)
             \<or> val128 (u128 (coef s)) * 10 ^ (unat (prec e) - unat (prec s)) < 2 ^ 128"
  proof (cases "s = Zero")
    case True
    then show ?thesis by (simp add: Zero_fields)
  next
    case False
    then have "prec e \<le> prec s" using ps by simp
    then have "unat (prec e) - unat (prec s) = 0" by (simp add: word_le_nat_alt)
    then show ?thesis using val128_lt [of "u128 (coef s)"] by simp
  qed
  have xe': "bint_overflow (coef e)
             \<or> val128 (u128 (coef e)) * 10 ^ (unat (prec s) - unat (prec e)) < 2 ^ 128"
  proof (cases "s = Zero")
    case True
    then show ?thesis using val128_lt [of "u128 (coef e)"] by (simp add: Zero_fields)
  next
    case False
    then have "prec s = max (prec d) (prec e)" using ps by simp
    then have "unat (prec s) - unat (prec e) = unat (prec d) - unat (prec e)"
      by (auto simp: max_def word_le_nat_alt)
    then show ?thesis using xe by simp
  qed
  obtain r where r: "Decimal_Sub s e = Ok r"
    and vr: "Decimal_value r = Decimal_value s - Decimal_value e"
    and pr: "r = Zero \<or> prec r = max (prec s) (prec e)"
    and nr: "0 \<le> bint_GetBig (coef s) \<and> 0 \<le> bint_GetBig (coef e) \<longrightarrow> 0 \<le> bint_GetBig (coef r)"
    using Sub_value [OF ps19 pe xs xe'] by blast
  have v: "Decimal_value r = Decimal_value d" using vr vs by simp
  have pr19: "prec r \<le> 19" using pr ps19 pe by (auto simp: Zero_fields max_def)
  have cr: "canonicalZero r" using r by (rule cz_Sub)
  have "Decimal_Cmp r d = Ok 0 \<and> Decimal_Equal r d = Ok True"
    if h: "canonicalZero d" "0 \<le> bint_GetBig (coef d)" "0 \<le> bint_GetBig (coef e)"
  proof -
    have "0 \<le> bint_GetBig (coef r)" using ns nr h by simp
    from Decimal_Cmp_value [OF pr19 pd this h(2) cr h(1)]
    have "Decimal_Cmp r d = Ok 0" using v by simp
    then show ?thesis by (simp add: Decimal_Equal_def and_then_def)
  qed
  then show ?thesis using s r v by blast
qed
section \<open>Claims about package \<open>uint128\<close>\<close>

text \<open>
  Claim C2.  The checked operations are meant to return an error exactly when the unbounded
  result does not fit in 128 bits.  \<open>Uint128.Mul\<close> misses an overflow: the carry \<open>c0\<close> of
  the first addition is fed into the second addition instead of being reported.  For
  \<open>u = 2^65 - 1\<close> (\<open>lo = 2^64 - 1\<close>, \<open>hi = 1\<close>) and \<open>v = 2^64 - 1\<close> the product is at
  least \<open>2^128\<close>, yet \<open>Mul\<close> returns the value \<open>(lo = 1, hi = 2^64 - 2)\<close> and no error.
\<close>

theorem Uint128_Mul_misses_overflow:
  "Uint128_Mul (New 18446744073709551615 1) (NewFromUint64 18446744073709551615)
     = Ok (New 1 18446744073709551614)
   \<and> 2 ^ 128 \<le> val128 (New 18446744073709551615 1)
                 * val128 (NewFromUint64 18446744073709551615)"
  by (simp add: Uint128_Mul_def New_def NewFromUint64_def bits_Mul64_def bits_Add64_def
      val128_def)

theorem Uint128_Mul_misses_overflow_witness:
  "Uint128_Mul (New 18446744073709551615 1) (NewFromUint64 18446744073709551615)
     \<noteq> Error U128_ErrOverflow"
  using Uint128_Mul_misses_overflow by simp

text \<open>
  Claim C3.  For a nonzero divisor \<open>v\<close>, \<open>Uint128.QuoRem\<close> returns \<open>q\<close> and \<open>r\<close> with
  \<open>u = q * v + r\<close> and \<open>r < v\<close>, and no error; and where the divisor has a nonzero high
  limb, the trial quotient it starts from is at most the true quotient and at most one below
  it, so that the single conditional subtraction corrects it.
\<close>

theorem Uint128_QuoRem_correct:
  assumes "v \<noteq> Uint128_Zero"
  shows "(\<exists>q r. Uint128_QuoRem u v = Ok (q, r, None)
            \<and> val128 u = val128 q * val128 v + val128 r \<and> val128 r < val128 v)
       \<and> (hi v \<noteq> 0 \<longrightarrow>
            (\<exists>tq. trialQuotient u v = Ok tq \<and> unat tq \<le> val128 u div val128 v
                \<and> val128 u div val128 v \<le> unat tq + 1))"
proof -
  have V0: "0 < val128 v"
    using assms by (cases v) (auto simp: Uint128_Zero_def val128_def unat_gt_0 word_neq_0_conv)
  have lt: "val128 u div val128 v < 2 ^ 128" "val128 u mod val128 v < 2 ^ 128"
    using div_lt_bound [OF val128_lt, of u "val128 v"] mod_lt_bound [OF val128_lt, of u "val128 v"]
    by simp_all
  have "val128 u = val128 (u128_of_nat (val128 u div val128 v)) * val128 v
          + val128 (u128_of_nat (val128 u mod val128 v))"
    using lt by (simp add: val128_u128_of_nat)
  moreover have "val128 (u128_of_nat (val128 u mod val128 v)) < val128 v"
    using lt V0 by (simp add: val128_u128_of_nat)
  ultimately show ?thesis
    using Uint128_QuoRem_eq [OF assms, of u] trialQuotient_ok [of v u] by blast
qed

theorem Uint128_QuoRem_correct_witness:
  "New 3 2 \<noteq> Uint128_Zero \<and> hi (New 3 2) \<noteq> 0
   \<and> (\<exists>q r. Uint128_QuoRem (New 5 7) (New 3 2) = Ok (q, r, None)
          \<and> val128 (New 5 7) = val128 q * val128 (New 3 2) + val128 r
          \<and> val128 r < val128 (New 3 2))
   \<and> (\<exists>tq. trialQuotient (New 5 7) (New 3 2) = Ok tq
          \<and> unat tq \<le> val128 (New 5 7) div val128 (New 3 2)
          \<and> val128 (New 5 7) div val128 (New 3 2) \<le> unat tq + 1)"
proof -
  have ne: "New 3 2 \<noteq> Uint128_Zero" "hi (New 3 2) \<noteq> 0"
    by (simp_all add: New_def Uint128_Zero_def)
  from Uint128_QuoRem_correct [OF ne(1), of "New 5 7"] ne show ?thesis by blast
qed

text \<open>
  Claim C10, as the code has it.  The 64-bit division variants have no zero-divisor guard:
  with divisor 0 they panic with the run-time division by zero of \<open>bits.Div64\<close>.  The
  full-width \<open>QuoRem\<close>, \<open>Div\<close> and \<open>Mod\<close> have no guard either: a zero divisor has a zero
  high limb and is handed to \<open>QuoRem64\<close>, so they panic in the same way and return no error
  value.  For every nonzero divisor the 64-bit variants return the true quotient and
  remainder.
\<close>

theorem Uint128_QuoRem_zero_divisor_panics:
  "Uint128_QuoRem (New 5 7) Uint128_Zero = Panic DivideError"
  by (simp add: Uint128_QuoRem_def Uint128_QuoRem64_eq Uint128_Zero_def)

theorem Uint128_division_zero_guard:
  "Uint128_QuoRem64 u 0 = Panic DivideError
   \<and> Uint128_Div64 u 0 = Panic DivideError
   \<and> Uint128_Mod64 u 0 = Panic DivideError
   \<and> Uint128_QuoRem u Uint128_Zero = Panic DivideError
   \<and> Uint128_Div u Uint128_Zero = Panic DivideError
   \<and> Uint128_Mod u Uint128_Zero = Panic DivideError
   \<and> (v \<noteq> 0 \<longrightarrow>
        (\<exists>q r. Uint128_QuoRem64 u v = Ok (q, r) \<and> Uint128_Div64 u v = Ok q
            \<and> Uint128_Mod64 u v = Ok r
            \<and> val128 q = val128 u div unat v \<and> unat r = val128 u mod unat v
            \<and> val128 u = val128 q * unat v + unat r \<and> unat r < unat v))"
proof -
  have z: "Uint128_QuoRem u Uint128_Zero = Panic DivideError"
    by (simp add: Uint128_QuoRem_def Uint128_QuoRem64_eq Uint128_Zero_def)
  have nz: "\<exists>q r. Uint128_QuoRem64 u v = Ok (q, r) \<and> Uint128_Div64 u v = Ok q
            \<and> Uint128_Mod64 u v = Ok r
            \<and> val128 q = val128 u div unat v \<and> unat r = val128 u mod unat v
            \<and> val128 u = val128 q * unat v + unat r \<and> unat r < unat v" if "v \<noteq> 0"
  proof -
    have v0: "0 < unat v" using that by (simp add: unat_gt_0)
    have m: "val128 u mod unat v < unat v" using v0 by simp
    then have m64: "val128 u mod unat v < 18446744073709551616"
      using unat_lt64 [of v] by linarith
    have d: "val128 u div unat v < 2 ^ 128"
      using div_lt_bound [OF val128_lt, of u "unat v"] by simp
    show ?thesis
      using that m d
      by (simp add: Uint128_QuoRem64_eq Uint128_Div64_def Uint128_Mod64_def
          val128_u128_of_nat unat_of_nat64 [OF m64])
  qed
  have p: "Uint128_QuoRem64 u 0 = Panic DivideError" "Uint128_Div64 u 0 = Panic DivideError"
    "Uint128_Mod64 u 0 = Panic DivideError"
    by (simp_all add: Uint128_QuoRem64_eq Uint128_Div64_def Uint128_Mod64_def)
  have pz: "Uint128_Div u Uint128_Zero = Panic DivideError"
    "Uint128_Mod u Uint128_Zero = Panic DivideError"
    by (simp_all add: Uint128_Div_def Uint128_Mod_def z)
  show ?thesis using p z pz nz by blast
qed

theorem Uint128_division_zero_guard_witness:
  "(3 :: uint64) \<noteq> 0
   \<and> (\<exists>q r. Uint128_QuoRem64 (New 5 7) 3 = Ok (q, r) \<and> Uint128_Div64 (New 5 7) 3 = Ok q
          \<and> Uint128_Mod64 (New 5 7) 3 = Ok r
          \<and> val128 q = val128 (New 5 7) div unat (3 :: uint64)
          \<and> unat r = val128 (New 5 7) mod unat (3 :: uint64)
          \<and> val128 (New 5 7) = val128 q * unat (3 :: uint64) + unat r
          \<and> unat r < unat (3 :: uint64))"
proof -
  have ne: "(3 :: uint64) \<noteq> 0" by simp
  from Uint128_division_zero_guard [of "New 5 7" 3] ne show ?thesis by blast
qed

section \<open>Claims about \<open>Decimal\<close>\<close>

text \<open>
  Claim C4.  The Newton loop of \<open>sqrtU128\<close> is meant to reach a fixed point after finitely
  many iterations.  It leaves only when two successive estimates are equal.  For
  \<open>d = 0.9999999999999999998\<close> the scaled coefficient is \<open>(10^19 - 2) * 10^19\<close>; from the
  initial guess \<open>2^64\<close> the estimates reach \<open>10^19 - 1\<close> and then alternate between
  \<open>10^19 - 1\<close> and \<open>10^19 - 2\<close> for ever, so neither \<open>sqrtU128\<close> nor \<open>Sqrt\<close> returns.
\<close>

theorem Sqrt_loop_diverges:
  "Decimal_NewFromUint64 9999999999999999998 19 = Ok sqrtD
   \<and> sqrtStart sqrtD
       = Ok (Some (Uint256_New (u128_of_nat 99999999999999999980000000000000000000) Uint128_Zero,
                   New 0 1))
   \<and> sqrtLoop (Uint256_New (u128_of_nat 99999999999999999980000000000000000000) Uint128_Zero)
        (New 0 1) = None
   \<and> sqrtU128 sqrtD = None
   \<and> Decimal_Sqrt sqrtD = None"
  by (intro conjI sqrtD_NewFromUint64 sqrtD_start sqrtD_loop sqrtD_U128 sqrtD_Sqrt)

theorem Sqrt_loop_diverges_witness:
  "Decimal_Sqrt sqrtD \<noteq> Some (Ok One) \<and> sqrtU128 sqrtD \<noteq> Some (Ok One)"
  using Sqrt_loop_diverges by simp

text \<open>
  Claim C7.  For a nonzero divisor \<open>QuoRem\<close> is meant to return \<open>q\<close> and \<open>r\<close> with
  \<open>d = q * e + r\<close>.  For \<open>d = 2^70 / 10\<close> and \<open>e = 1844674407370955161 * 2^64 + 2^64 - 1\<close>
  the divisor is scaled by 10 with \<open>Uint128.Mul\<close>, which misses the overflow and returns
  \<open>4 * 2^64 + 2^64 - 10\<close>; the fast path then divides by that number and \<open>QuoRem\<close> returns
  \<open>q = 12\<close> and \<open>r = 7378697629483820658.4\<close>, although \<open>d < e\<close>.
\<close>

theorem QuoRem_wrong_quotient:
  "NewFromHiLo False 64 0 1 = Ok quoRemD
   \<and> NewFromHiLo False 1844674407370955161 18446744073709551615 0 = Ok quoRemE
   \<and> Decimal_QuoRem quoRemD quoRemE =
       Ok (\<lparr>coef = bintFromU128 (New 12 0), neg = False, prec = 0\<rparr>,
           \<lparr>coef = bintFromU128 (New 120 4), neg = False, prec = 1\<rparr>)
   \<and> Decimal_value quoRemD \<noteq>
       Decimal_value \<lparr>coef = bintFromU128 (New 12 0), neg = False, prec = 0\<rparr>
         * Decimal_value quoRemE
       + Decimal_value \<lparr>coef = bintFromU128 (New 120 4), neg = False, prec = 1\<rparr>
   \<and> Decimal_value quoRemD < Decimal_value quoRemE"
  by (intro conjI quoRemD_NewFromHiLo quoRemE_NewFromHiLo quoRemDE_QuoRem)
    (simp_all add: quoRemDE_values)

theorem QuoRem_wrong_quotient_witness:
  "Decimal_QuoRem quoRemD quoRemE \<noteq> Ok (Zero, quoRemD)"
  using QuoRem_wrong_quotient
  by (simp add: Zero_def quoRemD_def bintFromU128_def New_def Uint128_Zero_def)

text \<open>
  Claim C1.  The fast path and the fallback are meant to give the same number.  On the
  operands of the previous theorem the 128-bit path of \<open>QuoRem\<close> succeeds with the quotient
  12, while the same computation on \<open>*big.Int\<close> gives the quotient 0 and the remainder \<open>d\<close>.
\<close>

theorem QuoRem_fast_path_differs:
  "tryQuoRemU128 quoRemD quoRemE =
       Ok (\<lparr>coef = bintFromU128 (New 12 0), neg = False, prec = 0\<rparr>,
           \<lparr>coef = bintFromU128 (New 120 4), neg = False, prec = 1\<rparr>)
   \<and> quoRemBig quoRemD quoRemE =
       Ok (Zero, \<lparr>coef = bintFromBigInt 1180591620717411303424, neg = False, prec = 1\<rparr>)
   \<and> Decimal_value \<lparr>coef = bintFromU128 (New 12 0), neg = False, prec = 0\<rparr>
       \<noteq> Decimal_value Zero"
  by (intro conjI quoRemDE_try quoRemDE_quoRemBig) (simp add: quoRemDE_values Zero_value)

theorem QuoRem_fast_path_differs_witness:
  "tryQuoRemU128 quoRemD quoRemE \<noteq> quoRemBig quoRemD quoRemE"
  using QuoRem_fast_path_differs
  by (simp add: Zero_def bintFromU128_def bintFromBigInt_def New_def Uint128_Zero_def)

text \<open>
  Claim C6.  For a Decimal \<open>d\<close> (a precision of at most 19 and a coefficient that is a
  magnitude) and a target precision \<open>p\<close> below the precision of \<open>d\<close>, \<open>RoundBank\<close> rounds
  half to even: with \<open>F = 10^(d.prec - p)\<close>, \<open>q\<close> the quotient and \<open>r\<close> the remainder of the
  coefficient by \<open>F\<close>, the new coefficient is \<open>q + 1\<close> exactly when \<open>r\<close> exceeds half of \<open>F\<close>,
  or equals half of \<open>F\<close> and \<open>q\<close> is odd, and \<open>q\<close> otherwise; the sign is kept and the precision
  is \<open>p\<close>.  In particular \<open>RoundBank(1.12345, 4) = 1.1234\<close>, \<open>RoundBank(1.5, 0) = 2\<close> and
  \<open>RoundBank(-1.5, 0) = -2\<close>.
\<close>

theorem RoundBank_half_to_even:
  assumes "p < prec d" and "prec d \<le> 19" and "0 \<le> bint_GetBig (coef d)"
  shows "(\<exists>c'. Decimal_RoundBank d p = Ok (newDecimal (neg d) c' p)
            \<and> bint_GetBig c' =
               (let F = 10 ^ unat (prec d - p);
                    q = bint_GetBig (coef d) div F;
                    r = bint_GetBig (coef d) mod F
                in if F < 2 * r \<or> (2 * r = F \<and> odd q) then q + 1 else q))
       \<and> Decimal_RoundBank \<lparr>coef = bintFromU64 112345, neg = False, prec = 5\<rparr> 4
           = Ok \<lparr>coef = bintFromU64 11234, neg = False, prec = 4\<rparr>
       \<and> Decimal_RoundBank \<lparr>coef = bintFromU64 15, neg = False, prec = 1\<rparr> 0
           = Ok \<lparr>coef = bintFromU64 2, neg = False, prec = 0\<rparr>
       \<and> Decimal_RoundBank \<lparr>coef = bintFromU64 15, neg = True, prec = 1\<rparr> 0
           = Ok \<lparr>coef = bintFromU64 2, neg = True, prec = 0\<rparr>"
  by (intro conjI RoundBank_general [OF assms] RoundBank_examples)

theorem RoundBank_half_to_even_witness:
  "(0 :: uint8) < prec \<lparr>coef = bintFromU64 25, neg = True, prec = 1\<rparr>
   \<and> prec \<lparr>coef = bintFromU64 25, neg = True, prec = 1\<rparr> \<le> 19
   \<and> 0 \<le> bint_GetBig (coef \<lparr>coef = bintFromU64 25, neg = True, prec = 1\<rparr>)
   \<and> (\<exists>c'. Decimal_RoundBank \<lparr>coef = bintFromU64 25, neg = True, prec = 1\<rparr> 0
              = Ok (newDecimal True c' 0)
          \<and> bint_GetBig c' = 2)"
  using RoundBank_half_to_even [of 0 "\<lparr>coef = bintFromU64 25, neg = True, prec = 1\<rparr>"]
  by (simp add: bintFromU64_def GetBig_U128)

text \<open>
  Claim C8, for \<open>PowInt\<close> as the code has it.  The deprecated \<open>PowInt\<close> treats a zero base
  first: \<open>0^e = 0\<close> for every exponent, so \<open>PowInt(0, 0)\<close> is \<open>Zero\<close>, not \<open>One\<close>, and
  \<open>PowInt(0, -1)\<close> is \<open>Zero\<close>, not an error.
\<close>

theorem PowInt_zero_pow_zero:
  "Decimal_PowInt Zero 0 = Ok Zero \<and> Decimal_PowInt Zero 0 \<noteq> Ok One
   \<and> Decimal_PowInt Zero (- 1) = Ok Zero"
  by (simp add: PowInt_zero_base Zero_IsZero Zero_neq_One)

text \<open>
  Claim C8, amended.  For a zero base: \<open>PowInt\<close> returns \<open>Zero\<close> for every exponent;
  \<open>PowInt32\<close> returns \<open>One\<close> for the exponent 0 and \<open>ErrZeroPowNegative\<close> for a negative
  exponent; \<open>PowToIntPart\<close> returns \<open>One\<close> for a non-negative exponent whose integer part is
  zero, and \<open>ErrZeroPowNegative\<close> for a negative exponent whose integer part is not zero.  In
  particular \<open>Zero.PowInt32(0) = One\<close> and \<open>Zero.PowInt32(-1)\<close> is \<open>ErrZeroPowNegative\<close>.
\<close>

theorem zero_base_powers:
  assumes "bint_IsZero (coef d)"
  shows "Decimal_PowInt d e = Ok Zero
       \<and> Decimal_PowInt32 d 0 = Ok One
       \<and> (sint e32 < 0 \<longrightarrow> Decimal_PowInt32 d e32 = Error ErrZeroPowNegative)
       \<and> (\<not> neg x \<and> Decimal_Trunc x 0 = Ok Zero \<longrightarrow> Decimal_PowToIntPart d x = Ok One)
       \<and> (neg y \<and> Decimal_Trunc y 0 \<noteq> Ok Zero \<longrightarrow>
            Decimal_PowToIntPart d y = Error ErrZeroPowNegative)
       \<and> Decimal_PowInt32 Zero 0 = Ok One
       \<and> Decimal_PowInt32 Zero (- 1) = Error ErrZeroPowNegative"
  using assms
  by (simp add: PowInt_zero_base PowInt32_zero_base_0 PowInt32_zero_base_neg
      PowToIntPart_zero_exp PowToIntPart_zero_base_neg Zero_IsZero)

theorem zero_base_powers_witness:
  "bint_IsZero (coef Zero)
   \<and> sint (- 1 :: int32) < 0
   \<and> \<not> neg \<lparr>coef = bintFromU64 5, neg = False, prec = 1\<rparr>
   \<and> Decimal_Trunc \<lparr>coef = bintFromU64 5, neg = False, prec = 1\<rparr> 0 = Ok Zero
   \<and> neg \<lparr>coef = bintFromU64 1, neg = True, prec = 0\<rparr>
   \<and> Decimal_Trunc \<lparr>coef = bintFromU64 1, neg = True, prec = 0\<rparr> 0 \<noteq> Ok Zero
   \<and> Decimal_PowInt Zero 7 = Ok Zero
   \<and> Decimal_PowInt32 Zero 0 = Ok One
   \<and> Decimal_PowInt32 Zero (- 1) = Error ErrZeroPowNegative
   \<and> Decimal_PowToIntPart Zero \<lparr>coef = bintFromU64 5, neg = False, prec = 1\<rparr> = Ok One
   \<and> Decimal_PowToIntPart Zero \<lparr>coef = bintFromU64 1, neg = True, prec = 0\<rparr>
       = Error ErrZeroPowNegative"
  using zero_base_powers [of Zero 7 "- 1" "\<lparr>coef = bintFromU64 5, neg = False, prec = 1\<rparr>"
      "\<lparr>coef = bintFromU64 1, neg = True, prec = 0\<rparr>"]
  by (simp add: Zero_IsZero Trunc_half Trunc_minus_one neg_neq_Zero)

text \<open>
  Claim C9.  For Decimals \<open>d\<close> and \<open>e\<close> (precisions at most 19) such that no overflow
  occurs (a coefficient held in 128 bits still fits in 128 bits once it is scaled to the
  larger of the two precisions), \<open>d.Add(e)\<close> and then \<open>.Sub(e)\<close> return a Decimal that stands
  for the same number as \<open>d\<close>: nothing is rounded.  The precision of the result is the larger
  of the two precisions, so its fields may differ from those of \<open>d\<close>; for operands that are
  canonical at zero and whose coefficients are magnitudes, \<open>Cmp\<close> finds the result equal to
  \<open>d\<close>.
\<close>

theorem Add_then_Sub_restores:
  assumes "prec d \<le> 19" and "prec e \<le> 19"
    and "bint_overflow (coef d)
         \<or> val128 (u128 (coef d)) * 10 ^ (unat (prec e) - unat (prec d)) < 2 ^ 128"
    and "bint_overflow (coef e)
         \<or> val128 (u128 (coef e)) * 10 ^ (unat (prec d) - unat (prec e)) < 2 ^ 128"
  shows "\<exists>s r. Decimal_Add d e = Ok s \<and> Decimal_Sub s e = Ok r
           \<and> Decimal_value r = Decimal_value d
           \<and> (canonicalZero d \<and> 0 \<le> bint_GetBig (coef d) \<and> 0 \<le> bint_GetBig (coef e)
                \<longrightarrow> Decimal_Cmp r d = Ok 0 \<and> Decimal_Equal r d = Ok True)"
  using assms by (rule Add_Sub_general)

theorem Add_then_Sub_restores_witness:
  "prec \<lparr>coef = bintFromU64 1, neg = False, prec = 0\<rparr> \<le> 19
   \<and> prec \<lparr>coef = bintFromU64 5, neg = True, prec = 1\<rparr> \<le> 19
   \<and> val128 (u128 (coef \<lparr>coef = bintFromU64 1, neg = False, prec = 0\<rparr>))
        * 10 ^ (unat (prec \<lparr>coef = bintFromU64 5, neg = True, prec = 1\<rparr>)
                - unat (prec \<lparr>coef = bintFromU64 1, neg = False, prec = 0\<rparr>)) < 2 ^ 128
   \<and> val128 (u128 (coef \<lparr>coef = bintFromU64 5, neg = True, prec = 1\<rparr>))
        * 10 ^ (unat (prec \<lparr>coef = bintFromU64 1, neg = False, prec = 0\<rparr>)
                - unat (prec \<lparr>coef = bintFromU64 5, neg = True, prec = 1\<rparr>)) < 2 ^ 128
   \<and> canonicalZero \<lparr>coef = bintFromU64 1, neg = False, prec = 0\<rparr>
   \<and> 0 \<le> bint_GetBig (coef \<lparr>coef = bintFromU64 1, neg = False, prec = 0\<rparr>)
   \<and> 0 \<le> bint_GetBig (coef \<lparr>coef = bintFromU64 5, neg = True, prec = 1\<rparr>)
   \<and> (\<exists>s r. Decimal_Add \<lparr>coef = bintFromU64 1, neg = False, prec = 0\<rparr>
                 \<lparr>coef = bintFromU64 5, neg = True, prec = 1\<rparr> = Ok s
          \<and> Decimal_Sub s \<lparr>coef = bintFromU64 5, neg = True, prec = 1\<rparr> = Ok r
          \<and> Decimal_value r = Decimal_value \<lparr>coef = bintFromU64 1, neg = False, prec = 0\<rparr>
          \<and> Decimal_Cmp r \<lparr>coef = bintFromU64 1, neg = False, prec = 0\<rparr> = Ok 0
          \<and> Decimal_Equal r \<lparr>coef = bintFromU64 1, neg = False, prec = 0\<rparr> = Ok True)"
proof -
  have c: "canonicalZero \<lparr>coef = bintFromU64 1, neg = False, prec = 0\<rparr>"
    by (simp add: canonicalZero_def bint_IsZero_def bint_overflow_def bintFromU64_def
        bintFromU128_def Uint128_IsZero_iff)
  show ?thesis
    using Add_then_Sub_restores [of "\<lparr>coef = bintFromU64 1, neg = False, prec = 0\<rparr>"
        "\<lparr>coef = bintFromU64 5, neg = True, prec = 1\<rparr>"] c
    by (simp add: bintFromU64_def GetBig_U128 bintFromU128_fields)
qed

text \<open>
  Claim C5.  Every Decimal that the exported constructors, the parser and the exported
  arithmetic and rounding operations return is canonical at zero: if its coefficient is zero,
  then its sign flag is false and its precision is 0; it is \<open>Zero\<close> itself, so it compares
  equal to \<open>Zero\<close>.
\<close>

theorem reachable_zero_is_canonical:
  assumes "reachable d" and "bint_IsZero (coef d)"
  shows "\<not> neg d \<and> prec d = 0 \<and> d = Zero \<and> Decimal_Cmp d Zero = Ok 0"
proof -
  have "canonicalZero d" using assms(1) by (rule reachable_canonicalZero)
  then have "d = Zero" using assms(2) by (simp add: canonicalZero_def)
  then show ?thesis by (simp add: Zero_flags Cmp_Zero_Zero)
qed

theorem reachable_zero_is_canonical_witness:
  "reachable (Decimal_Neg Zero) \<and> bint_IsZero (coef (Decimal_Neg Zero))
   \<and> \<not> neg (Decimal_Neg Zero) \<and> prec (Decimal_Neg Zero) = 0 \<and> Decimal_Neg Zero = Zero
   \<and> Decimal_Cmp (Decimal_Neg Zero) Zero = Ok 0"
proof -
  have r: "reachable (Decimal_Neg Zero)" by (intro r_Neg r_Zero)
  have z: "bint_IsZero (coef (Decimal_Neg Zero))"
    by (simp add: Decimal_Neg_def newDecimal_def Zero_IsZero)
  from reachable_zero_is_canonical [OF r z] r z show ?thesis by blast
qed

end
